theory Spec2Isabelle
  imports Complex_Main
begin

section \<open>The scalar autograd engine (micrograd/engine.py)\<close>

text \<open>
  \<open>Value\<close> objects are mutable and shared, and the closures stored in \<open>_backward\<close>
  write to the \<open>grad\<close> field of other objects, so the objects live in an explicit store.
  The store is a list of objects; the address of an object is its index, and creating an
  object appends it. Python floats are modelled as real numbers: rounding, infinities and
  NaN are not represented.
\<close>

type_synonym addr = nat

text \<open>A Python number: an \<open>int\<close> or a \<open>float\<close>.\<close>

datatype pynum = PyInt int | PyFloat real

text \<open>
  What an operator can receive as its other operand: a number, a \<open>Value\<close> (by address),
  or an object of any other type, carried as the text that \<open>type(other)\<close> prints.
\<close>

datatype pyobj = Num pynum | Ref addr | Other string

datatype error =
    Exception string
  | ZeroDivisionError
  | TypeError
  | RecursionError
  | ComplexResult

text \<open>
  The closures assigned to \<open>_backward\<close>, with the variables each one captures:
  \<open>self\<close>, \<open>other\<close> or \<open>power\<close>, and \<open>out\<close>.
\<close>

datatype closure =
    Lambda_None
  | Add_backward addr addr addr
  | Mul_backward addr addr addr
  | Pow_backward addr pynum addr
  | Relu_backward addr addr

text \<open>The \<open>_op\<close> strings \<open>''\<close>, \<open>'+'\<close>, \<open>'*'\<close>, \<open>'**{power}'\<close> and \<open>'ReLU'\<close>.\<close>

datatype optag = No_op | Plus | Times | Pow_op pynum | ReLU

record node =
  data :: real
  grad :: real
  backward_rule :: closure
  label :: string
  prev :: "addr set"
  op :: optag

type_synonym heap = "node list"

subsection \<open>Construction\<close>

text \<open>\<open>Value.__init__\<close>: the tuple \<open>_prev\<close> is stored as \<open>set(_prev)\<close>.\<close>

definition Value_init :: "heap \<Rightarrow> real \<Rightarrow> string \<Rightarrow> addr list \<Rightarrow> optag \<Rightarrow> heap \<times> addr" where
  "Value_init h d lbl prv opr =
     (h @ [\<lparr>data = d, grad = 0, backward_rule = Lambda_None, label = lbl,
             prev = set prv, op = opr\<rparr>], length h)"

definition set_backward :: "heap \<Rightarrow> addr \<Rightarrow> closure \<Rightarrow> heap" where
  "set_backward h out c = h[out := (h ! out)\<lparr>backward_rule := c\<rparr>]"

definition num_val :: "pynum \<Rightarrow> real" where
  "num_val p = (case p of PyInt i \<Rightarrow> of_int i | PyFloat x \<Rightarrow> x)"

definition type_of_Value :: string where
  "type_of_Value = ''<class 'micrograd.engine.Value'>''"

text \<open>
  The coercion at the head of \<open>__add__\<close> and \<open>__mul__\<close>: a \<open>Value\<close> is taken as it is,
  an int or float is wrapped in a new leaf, anything else raises with the message \<open>msg\<close>
  followed by the operand's type.
\<close>

definition coerce :: "string \<Rightarrow> heap \<Rightarrow> pyobj \<Rightarrow> error + heap \<times> addr" where
  "coerce msg h other =
     (case other of
        Ref b \<Rightarrow> Inr (h, b)
      | Num n \<Rightarrow> Inr (Value_init h (num_val n) [] [] No_op)
      | Other t \<Rightarrow> Inl (Exception (msg @ t)))"

definition add_msg :: string where
  "add_msg = ''Can't add an instance of type Value with an instance of type ''"

definition mul_msg :: string where
  "mul_msg = ''Can't multiply an instance of type Value with an instance of type ''"

definition pow_msg :: string where
  "pow_msg = ''Can't raise an instance of type Value to an instance of type ''"

definition add :: "heap \<Rightarrow> addr \<Rightarrow> pyobj \<Rightarrow> error + heap \<times> addr" where
  "add h self other =
     (case coerce add_msg h other of
        Inl e \<Rightarrow> Inl e
      | Inr (h1, b) \<Rightarrow>
          (let (h2, out) = Value_init h1 (data (h1 ! self) + data (h1 ! b)) [] [self, b] Plus
           in Inr (set_backward h2 out (Add_backward self b out), out)))"

definition mul :: "heap \<Rightarrow> addr \<Rightarrow> pyobj \<Rightarrow> error + heap \<times> addr" where
  "mul h self other =
     (case coerce mul_msg h other of
        Inl e \<Rightarrow> Inl e
      | Inr (h1, b) \<Rightarrow>
          (let (h2, out) = Value_init h1 (data (h1 ! self) * data (h1 ! b)) [] [self, b] Times
           in Inr (set_backward h2 out (Mul_backward self b out), out)))"

text \<open>
  Python's \<open>x ** p\<close> on numbers, over the reals. A zero base with a negative exponent
  raises ZeroDivisionError. A negative base with a fractional exponent gives a complex
  number in Python, which a real-valued \<open>data\<close> field cannot hold: that outcome is
  reported as \<open>ComplexResult\<close>.
\<close>

definition py_pow :: "real \<Rightarrow> pynum \<Rightarrow> error + real" where
  "py_pow x p =
     (case p of
        PyInt n \<Rightarrow> (if x = 0 \<and> n < 0 then Inl ZeroDivisionError else Inr (x powi n))
      | PyFloat y \<Rightarrow>
          (if x = 0 \<and> y < 0 then Inl ZeroDivisionError
           else if of_int \<lfloor>y\<rfloor> = y then Inr (x powi \<lfloor>y\<rfloor>)
           else if x < 0 then Inl ComplexResult
           else Inr (x powr y)))"

definition num_minus_one :: "pynum \<Rightarrow> pynum" where
  "num_minus_one p = (case p of PyInt n \<Rightarrow> PyInt (n - 1) | PyFloat y \<Rightarrow> PyFloat (y - 1))"

definition num_neg :: "pynum \<Rightarrow> pynum" where
  "num_neg p = (case p of PyInt n \<Rightarrow> PyInt (- n) | PyFloat y \<Rightarrow> PyFloat (- y))"

definition pow :: "heap \<Rightarrow> addr \<Rightarrow> pyobj \<Rightarrow> error + heap \<times> addr" where
  "pow h self pwr =
     (case pwr of
        Ref b \<Rightarrow> Inl (Exception (pow_msg @ type_of_Value))
      | Other t \<Rightarrow> Inl (Exception (pow_msg @ t))
      | Num p \<Rightarrow>
          (case py_pow (data (h ! self)) p of
             Inl e \<Rightarrow> Inl e
           | Inr d \<Rightarrow>
               (let (h2, out) = Value_init h d [] [self] (Pow_op p)
                in Inr (set_backward h2 out (Pow_backward self p out), out))))"

definition relu :: "heap \<Rightarrow> addr \<Rightarrow> heap \<times> addr" where
  "relu h self =
     (let (h2, out) = Value_init h (max 0 (data (h ! self))) [] [self] ReLU
      in (set_backward h2 out (Relu_backward self out), out))"

subsection \<open>The derived operators\<close>

definition neg :: "heap \<Rightarrow> addr \<Rightarrow> error + heap \<times> addr" where
  "neg h self = mul h self (Num (PyInt (- 1)))"

definition radd :: "heap \<Rightarrow> addr \<Rightarrow> pyobj \<Rightarrow> error + heap \<times> addr" where
  "radd h self other = add h self other"

definition rmul :: "heap \<Rightarrow> addr \<Rightarrow> pyobj \<Rightarrow> error + heap \<times> addr" where
  "rmul h self other = mul h self other"

text \<open>
  The expression \<open>-other\<close> inside \<open>__sub__\<close> and \<open>__rsub__\<close>: \<open>__neg__\<close> for a \<open>Value\<close>,
  the negated number for an int or float; other types are taken to have no unary minus.
\<close>

definition py_neg :: "heap \<Rightarrow> pyobj \<Rightarrow> error + heap \<times> pyobj" where
  "py_neg h other =
     (case other of
        Ref b \<Rightarrow> (case neg h b of Inl e \<Rightarrow> Inl e | Inr (h1, n) \<Rightarrow> Inr (h1, Ref n))
      | Num n \<Rightarrow> Inr (h, Num (num_neg n))
      | Other t \<Rightarrow> Inl TypeError)"

definition sub :: "heap \<Rightarrow> addr \<Rightarrow> pyobj \<Rightarrow> error + heap \<times> addr" where
  "sub h self other =
     (case py_neg h other of Inl e \<Rightarrow> Inl e | Inr (h1, m) \<Rightarrow> add h1 self m)"

definition rsub :: "heap \<Rightarrow> addr \<Rightarrow> pyobj \<Rightarrow> error + heap \<times> addr" where
  "rsub h self other =
     (case py_neg h other of Inl e \<Rightarrow> Inl e | Inr (h1, m) \<Rightarrow> add h1 self m)"

text \<open>
  The expression \<open>other ** -1\<close> inside \<open>__truediv__\<close>: \<open>__pow__\<close> for a \<open>Value\<close>,
  the float reciprocal for a number; other types are taken to have no power operator.
\<close>

definition py_inverse :: "heap \<Rightarrow> pyobj \<Rightarrow> error + heap \<times> pyobj" where
  "py_inverse h other =
     (case other of
        Ref b \<Rightarrow>
          (case pow h b (Num (PyInt (- 1))) of Inl e \<Rightarrow> Inl e | Inr (h1, n) \<Rightarrow> Inr (h1, Ref n))
      | Num n \<Rightarrow>
          (case py_pow (num_val n) (PyInt (- 1)) of
             Inl e \<Rightarrow> Inl e
           | Inr r \<Rightarrow> Inr (h, Num (PyFloat r)))
      | Other t \<Rightarrow> Inl TypeError)"

definition truediv :: "heap \<Rightarrow> addr \<Rightarrow> pyobj \<Rightarrow> error + heap \<times> addr" where
  "truediv h self other =
     (case py_inverse h other of Inl e \<Rightarrow> Inl e | Inr (h1, m) \<Rightarrow> mul h1 self m)"

text \<open>
  The expression \<open>other * v\<close> inside \<open>__rtruediv__\<close>, where \<open>v\<close> is a \<open>Value\<close>: a
  \<open>Value\<close> on the left runs its \<open>__mul__\<close>; the \<open>__mul__\<close> of an int or float declines a
  \<open>Value\<close>, so Python calls \<open>v.__rmul__(other)\<close>.
\<close>

definition py_mul_left :: "heap \<Rightarrow> pyobj \<Rightarrow> addr \<Rightarrow> error + heap \<times> addr" where
  "py_mul_left h other v =
     (case other of
        Ref c \<Rightarrow> mul h c (Ref v)
      | _ \<Rightarrow> rmul h v other)"

definition rtruediv :: "heap \<Rightarrow> addr \<Rightarrow> pyobj \<Rightarrow> error + heap \<times> addr" where
  "rtruediv h self other =
     (case pow h self (Num (PyInt (- 1))) of
        Inl e \<Rightarrow> Inl e
      | Inr (h1, p) \<Rightarrow> py_mul_left h1 other p)"

subsection \<open>The backward pass\<close>

definition add_grad :: "heap \<Rightarrow> addr \<Rightarrow> real \<Rightarrow> heap" where
  "add_grad h a x = h[a := (h ! a)\<lparr>grad := grad (h ! a) + x\<rparr>]"

text \<open>Calling a closure: the bodies of the four \<open>backward\<close> functions and of \<open>lambda: None\<close>.\<close>

definition call_backward :: "heap \<Rightarrow> closure \<Rightarrow> error + heap" where
  "call_backward h c =
     (case c of
        Lambda_None \<Rightarrow> Inr h
      | Add_backward self other out \<Rightarrow>
          (let h1 = add_grad h self (1 * grad (h ! out))
           in Inr (add_grad h1 other (1 * grad (h1 ! out))))
      | Mul_backward self other out \<Rightarrow>
          (let h1 = add_grad h self (data (h ! other) * grad (h ! out))
           in Inr (add_grad h1 other (data (h1 ! self) * grad (h1 ! out))))
      | Pow_backward self pwr out \<Rightarrow>
          (case py_pow (data (h ! self)) (num_minus_one pwr) of
             Inl e \<Rightarrow> Inl e
           | Inr r \<Rightarrow> Inr (add_grad h self (num_val pwr * r * grad (h ! out))))
      | Relu_backward self out \<Rightarrow>
          Inr (add_grad h self ((if data (h ! self) > 0 then 1 else 0) * grad (h ! out))))"

text \<open>
  \<open>build_topo\<close>, the nested function of \<open>backward\<close>, with its two variables \<open>visited\<close> and
  \<open>topo\<close> passed as a pair. The first argument is the number of nested calls Python
  still allows (its recursion limit); running out of it is \<open>None\<close>. The order in which a
  \<open>for\<close> loop goes through the set \<open>v._prev\<close> is not fixed by Python, so it is a
  parameter \<open>iter\<close>, which may depend on the object.
\<close>

fun build_topo :: "nat \<Rightarrow> (addr \<Rightarrow> addr set \<Rightarrow> addr list) \<Rightarrow> heap \<Rightarrow> addr
      \<Rightarrow> addr set \<times> addr list \<Rightarrow> (addr set \<times> addr list) option"
  and build_children :: "nat \<Rightarrow> (addr \<Rightarrow> addr set \<Rightarrow> addr list) \<Rightarrow> heap \<Rightarrow> addr list
      \<Rightarrow> addr set \<times> addr list \<Rightarrow> (addr set \<times> addr list) option" where
  "build_topo 0 iter h v s = None"
| "build_topo (Suc k) iter h v s =
     (if v \<notin> fst s then
        (case build_children k iter h (iter v (prev (h ! v))) (insert v (fst s), snd s) of
           None \<Rightarrow> None
         | Some s' \<Rightarrow> Some (fst s', snd s' @ [v]))
      else Some s)"
| "build_children k iter h [] s = Some s"
| "build_children k iter h (c # cs) s =
     (case build_topo k iter h c s of
        None \<Rightarrow> None
      | Some s' \<Rightarrow> build_children k iter h cs s')"

text \<open>
  The loop \<open>for v in reversed(topo): v._backward()\<close>, over the list already reversed.
  A closure that raises stops the loop; the gradients written so far stay in the store, so
  the store is returned in both cases.
\<close>

fun run_rules :: "heap \<Rightarrow> addr list \<Rightarrow> heap \<times> error option" where
  "run_rules h [] = (h, None)"
| "run_rules h (v # vs) =
     (case call_backward h (backward_rule (h ! v)) of
        Inl e \<Rightarrow> (h, Some e)
      | Inr h1 \<Rightarrow> run_rules h1 vs)"

definition set_grad :: "heap \<Rightarrow> addr \<Rightarrow> real \<Rightarrow> heap" where
  "set_grad h a x = h[a := (h ! a)\<lparr>grad := x\<rparr>]"

text \<open>
  \<open>Value.backward\<close>. The result is the store after the call together with either the
  exception raised or the list \<open>topo\<close> returned.
\<close>

definition backward :: "nat \<Rightarrow> (addr \<Rightarrow> addr set \<Rightarrow> addr list) \<Rightarrow> heap \<Rightarrow> addr
      \<Rightarrow> heap \<times> (error + addr list)" where
  "backward limit iter h self =
     (case build_topo limit iter h self ({}, []) of
        None \<Rightarrow> (h, Inl RecursionError)
      | Some (visited, topo) \<Rightarrow>
          (case run_rules (set_grad h self 1) (rev topo) of
             (h', Some e) \<Rightarrow> (h', Inl e)
           | (h', None) \<Rightarrow> (h', Inr topo)))"

text \<open>A leaf: \<open>Value(data)\<close> with the default label, operands and operation.\<close>

definition leaf :: "heap \<Rightarrow> real \<Rightarrow> heap \<times> addr" where
  "leaf h d = Value_init h d [] [] No_op"

section \<open>Properties\<close>

subsection \<open>Well-formed stores and topological orders\<close>

definition operands_before :: "heap \<Rightarrow> bool" where
  "operands_before h \<longleftrightarrow> (\<forall>i<length h. \<forall>c\<in>prev (h ! i). c < i)"

definition iter_ok :: "(addr \<Rightarrow> addr set \<Rightarrow> addr list) \<Rightarrow> bool" where
  "iter_ok iter \<longleftrightarrow> (\<forall>v S. finite S \<longrightarrow> set (iter v S) = S \<and> distinct (iter v S))"

definition operands_first :: "heap \<Rightarrow> addr list \<Rightarrow> bool" where
  "operands_first h xs \<longleftrightarrow> (\<forall>i<length xs. \<forall>c\<in>prev (h ! (xs ! i)). \<exists>j<i. xs ! j = c)"

definition topo_inv :: "heap \<Rightarrow> addr set \<times> addr list \<Rightarrow> bool" where
  "topo_inv h s \<longleftrightarrow> distinct (snd s) \<and> set (snd s) \<subseteq> fst s \<and> operands_first h (snd s)"

definition grows :: "addr set \<times> addr list \<Rightarrow> addr set \<times> addr list \<Rightarrow> addr set \<Rightarrow> bool" where
  "grows s s' X \<longleftrightarrow>
     (\<exists>new. snd s' = snd s @ new \<and> fst s' = fst s \<union> set new \<and> (\<forall>x\<in>set new. \<exists>c\<in>X. x \<le> c))"


definition operand_rel :: "heap \<Rightarrow> (addr \<times> addr) set" where
  "operand_rel h = {(v, c). c \<in> prev (h ! v)}"

definition reachable :: "heap \<Rightarrow> addr \<Rightarrow> addr set" where
  "reachable h rt = (operand_rel h)\<^sup>* `` {rt}"

text \<open>
  What the closures captured: a closure stored in object \<open>i\<close> has \<open>out = i\<close>, and the
  objects it writes to were created before \<open>i\<close>.
\<close>

definition closure_ok :: "addr \<Rightarrow> closure \<Rightarrow> bool" where
  "closure_ok i c =
     (case c of
        Lambda_None \<Rightarrow> True
      | Add_backward s b out \<Rightarrow> out = i \<and> s < i \<and> b < i
      | Mul_backward s b out \<Rightarrow> out = i \<and> s < i \<and> b < i
      | Pow_backward s p out \<Rightarrow> out = i \<and> s < i
      | Relu_backward s out \<Rightarrow> out = i \<and> s < i)"

definition closures_ok :: "heap \<Rightarrow> bool" where
  "closures_ok h \<longleftrightarrow> (\<forall>i<length h. closure_ok i (backward_rule (h ! i)))"

definition wf_heap :: "heap \<Rightarrow> bool" where
  "wf_heap h \<longleftrightarrow> operands_before h \<and> closures_ok h"

definition obj_ok :: "heap \<Rightarrow> pyobj \<Rightarrow> bool" where
  "obj_ok h other = (case other of Ref b \<Rightarrow> b < length h | _ \<Rightarrow> True)"

text \<open>
  The stores that the public operations can produce, starting from the empty one:
  the constructor (whose \<open>_prev\<close> can only name objects that exist), the four primitive
  operations, of which the derived operators are compositions, \<open>backward\<close>, and an
  assignment to a \<open>grad\<close> field from outside, as \<open>zero_grad\<close> in nn.py does.
\<close>

inductive built :: "heap \<Rightarrow> bool" where
  built_empty: "built []"
| built_Value: "built h \<Longrightarrow> \<forall>c\<in>set prv. c < length h \<Longrightarrow> built (fst (Value_init h d lbl prv opr))"
| built_add: "built h \<Longrightarrow> self < length h \<Longrightarrow> obj_ok h other \<Longrightarrow> add h self other = Inr (h', out)
    \<Longrightarrow> built h'"
| built_mul: "built h \<Longrightarrow> self < length h \<Longrightarrow> obj_ok h other \<Longrightarrow> mul h self other = Inr (h', out)
    \<Longrightarrow> built h'"
| built_pow: "built h \<Longrightarrow> self < length h \<Longrightarrow> pow h self pwr = Inr (h', out) \<Longrightarrow> built h'"
| built_relu: "built h \<Longrightarrow> self < length h \<Longrightarrow> relu h self = (h', out) \<Longrightarrow> built h'"
| built_backward: "built h \<Longrightarrow> self < length h \<Longrightarrow> backward limit iter h self = (h', r)
    \<Longrightarrow> built h'"
| built_set_grad: "built h \<Longrightarrow> built (set_grad h a x)"

text \<open>One admissible iteration order for sets of addresses: ascending.\<close>

definition sorted_iter :: "addr \<Rightarrow> addr set \<Rightarrow> addr list" where
  "sorted_iter v S = sorted_list_of_set S"

text \<open>
  The program \<open>x = Value(-2.0); y = Value(3.0); z = x*y + x.relu()\<close>, run on the empty
  store: \<open>x\<close>, \<open>y\<close>, \<open>x*y\<close>, \<open>x.relu()\<close> and \<open>z\<close> get the addresses 0 to 4. The result
  is the store with the addresses of \<open>x\<close>, \<open>y\<close> and \<open>z\<close>.
\<close>

definition scenario :: "error + heap \<times> addr \<times> addr \<times> addr" where
  "scenario =
     (let (h1, x) = leaf [] (- 2);
          (h2, y) = leaf h1 3
      in case mul h2 x (Ref y) of
           Inl e \<Rightarrow> Inl e
         | Inr (h3, xy) \<Rightarrow>
             (let (h4, r) = relu h3 x
              in case add h4 xy (Ref r) of
                   Inl e \<Rightarrow> Inl e
                 | Inr (h5, z) \<Rightarrow> Inr (h5, x, y, z)))"

definition scenario_heap :: heap where
  "scenario_heap = (case scenario of Inr (h, x, y, z) \<Rightarrow> h | Inl e \<Rightarrow> [])"

text \<open>
  The amount that calling a closure adds to the gradient of object \<open>a\<close>, read off the
  table of local derivatives: for every operand position that holds \<open>a\<close>, the local
  derivative times \<open>out.grad\<close>.
\<close>

definition contribution :: "heap \<Rightarrow> closure \<Rightarrow> addr \<Rightarrow> real" where
  "contribution h c a =
     (case c of
        Lambda_None \<Rightarrow> 0
      | Add_backward s b out \<Rightarrow>
          (if a = s then 1 * grad (h ! out) else 0) + (if a = b then 1 * grad (h ! out) else 0)
      | Mul_backward s b out \<Rightarrow>
          (if a = s then data (h ! b) * grad (h ! out) else 0)
          + (if a = b then data (h ! s) * grad (h ! out) else 0)
      | Pow_backward s p out \<Rightarrow>
          (if a = s
           then (case py_pow (data (h ! s)) (num_minus_one p) of
                   Inl e \<Rightarrow> 0
                 | Inr r \<Rightarrow> num_val p * r * grad (h ! out))
           else 0)
      | Relu_backward s out \<Rightarrow>
          (if a = s then (if data (h ! s) > 0 then 1 else 0) * grad (h ! out) else 0))"

text \<open>
  The sum of what the closures of the objects \<open>vs\<close>, called in this order from the store
  \<open>h\<close>, add to the gradient of \<open>a\<close>, each taken in the store it is called in.
\<close>

fun pushed_total :: "heap \<Rightarrow> addr list \<Rightarrow> addr \<Rightarrow> real" where
  "pushed_total h [] a = 0"
| "pushed_total h (v # vs) a =
     (case call_backward h (backward_rule (h ! v)) of
        Inl e \<Rightarrow> 0
      | Inr h1 \<Rightarrow> contribution h (backward_rule (h ! v)) a + pushed_total h1 vs a)"

(*LEMMAS*)

subsection \<open>The depth-first traversal\<close>

lemma operands_first_snoc:
  assumes "operands_first h xs" and "prev (h ! v) \<subseteq> set xs"
  shows "operands_first h (xs @ [v])"
  unfolding operands_first_def
proof (intro allI impI ballI)
  fix i c
  assume i: "i < length (xs @ [v])" and c: "c \<in> prev (h ! ((xs @ [v]) ! i))"
  show "\<exists>j<i. (xs @ [v]) ! j = c"
  proof (cases "i < length xs")
    case True
    with c have "c \<in> prev (h ! (xs ! i))" by (simp add: nth_append)
    with assms(1) True obtain j where j: "j < i" "xs ! j = c"
      unfolding operands_first_def by blast
    from j True have "(xs @ [v]) ! j = c" by (simp add: nth_append)
    with j(1) show ?thesis by blast
  next
    case False
    with i have il: "i = length xs" by simp
    with c have "c \<in> prev (h ! v)" by simp
    with assms(2) have "c \<in> set xs" by blast
    then obtain j where j: "j < length xs" "xs ! j = c"
      unfolding in_set_conv_nth by blast
    then have "(xs @ [v]) ! j = c" by (simp add: nth_append)
    with j(1) il show ?thesis by blast
  qed
qed

lemma iter_ok_set:
  assumes "iter_ok iter" "operands_before h" "v < length h"
  shows "set (iter v (prev (h ! v))) = prev (h ! v)"
proof -
  have "prev (h ! v) \<subseteq> {..<v}" using assms(2,3) unfolding operands_before_def by auto
  then have "finite (prev (h ! v))" by (rule finite_subset) simp
  with assms(1) show ?thesis unfolding iter_ok_def by blast
qed

lemma build_topo_inv:
  "build_topo k iter h v s = Some s' \<Longrightarrow> operands_before h \<Longrightarrow> iter_ok iter \<Longrightarrow>
     v < length h \<Longrightarrow> topo_inv h s \<Longrightarrow> (\<forall>n\<in>fst s - set (snd s). v < n) \<Longrightarrow>
     topo_inv h s' \<and> grows s s' {v} \<and> v \<in> set (snd s')"
  and build_children_inv:
  "build_children k iter h cs s = Some s' \<Longrightarrow> operands_before h \<Longrightarrow> iter_ok iter \<Longrightarrow>
     (\<forall>c\<in>set cs. c < length h) \<Longrightarrow> topo_inv h s \<Longrightarrow>
     (\<forall>n\<in>fst s - set (snd s). \<forall>c\<in>set cs. c < n) \<Longrightarrow>
     topo_inv h s' \<and> grows s s' (set cs) \<and> set cs \<subseteq> set (snd s')"
proof (induction k iter h v s and k iter h cs s arbitrary: s' and s'
        rule: build_topo_build_children.induct)
  case (1 iter h v s)
  then show ?case by simp
next
  case (2 k iter h v s)
  show ?case
  proof (cases "v \<in> fst s")
    case True
    with "2.prems"(1) have eq: "s' = s" by simp
    from True "2.prems"(6) have "v \<in> set (snd s)" by auto
    with eq "2.prems"(5) show ?thesis by (simp add: grows_def)
  next
    case False
    let ?cs = "iter v (prev (h ! v))"
    let ?s1 = "(insert v (fst s), snd s)"
    from False "2.prems"(1) obtain s2 where
      ch: "build_children k iter h ?cs ?s1 = Some s2" and s': "s' = (fst s2, snd s2 @ [v])"
      by (auto split: option.splits)
    have cs: "set ?cs = prev (h ! v)"
      using iter_ok_set[OF "2.prems"(3,2,4)] .
    have lt: "\<forall>c\<in>set ?cs. c < v"
      using cs "2.prems"(2,4) unfolding operands_before_def by auto
    have vs: "v \<notin> set (snd s)" using False "2.prems"(5) unfolding topo_inv_def by auto
    have inv1: "topo_inv h ?s1" using "2.prems"(5) unfolding topo_inv_def by auto
    have pend1: "\<forall>n\<in>fst ?s1 - set (snd ?s1). \<forall>c\<in>set ?cs. c < n"
    proof (intro ballI)
      fix n c
      assume n: "n \<in> fst ?s1 - set (snd ?s1)" and c: "c \<in> set ?cs"
      from lt c have cv: "c < v" by blast
      from n have "n = v \<or> n \<in> fst s - set (snd s)" by auto
      with "2.prems"(6) have "v \<le> n" by (auto intro: less_imp_le)
      with cv show "c < n" by simp
    qed
    have bound: "\<forall>c\<in>set ?cs. c < length h" using lt "2.prems"(4) by auto
    from "2.IH"[OF False ch "2.prems"(2,3) bound inv1 pend1]
    have inv2: "topo_inv h s2" and gr: "grows ?s1 s2 (set ?cs)" and sub: "set ?cs \<subseteq> set (snd s2)"
      by blast+
    from gr obtain new where new: "snd s2 = snd s @ new" "fst s2 = insert v (fst s) \<union> set new"
      "\<forall>x\<in>set new. \<exists>c\<in>set ?cs. x \<le> c"
      unfolding grows_def by auto
    have below: "x < v" if "x \<in> set new" for x
    proof -
      from new(3) that obtain c where c: "c \<in> set ?cs" "x \<le> c" by blast
      from lt c(1) have "c < v" by blast
      with c(2) show ?thesis by simp
    qed
    have vnew: "v \<notin> set new" using below by blast
    have d2: "distinct (snd s2)" and sub2: "set (snd s2) \<subseteq> fst s2"
      and of2: "operands_first h (snd s2)"
      using inv2 unfolding topo_inv_def by auto
    have "prev (h ! v) \<subseteq> set (snd s2)" using sub cs by simp
    with of2 have of3: "operands_first h (snd s2 @ [v])" by (rule operands_first_snoc)
    have "v \<notin> set (snd s2)" using vs vnew new(1) by simp
    with d2 have d3: "distinct (snd s2 @ [v])" by simp
    have "v \<in> fst s2" using new(2) by simp
    with sub2 have sub3: "set (snd s2 @ [v]) \<subseteq> fst s2" by simp
    have "topo_inv h s'"
      unfolding topo_inv_def s' using d3 sub3 of3 by simp
    moreover have "grows s s' {v}"
      unfolding grows_def
    proof (intro exI conjI)
      show "snd s' = snd s @ (new @ [v])" by (simp add: s' new(1))
      show "fst s' = fst s \<union> set (new @ [v])" by (auto simp: s' new(2))
      show "\<forall>x\<in>set (new @ [v]). \<exists>c\<in>{v}. x \<le> c"
        using below by (auto intro: less_imp_le)
    qed
    moreover have "v \<in> set (snd s')" by (simp add: s')
    ultimately show ?thesis by blast
  qed
next
  case (3 k iter h s)
  then show ?case by (simp add: grows_def)
next
  case (4 k iter h c cs s)
  from "4.prems"(1) obtain s1 where
    c: "build_topo k iter h c s = Some s1" and r: "build_children k iter h cs s1 = Some s'"
    by (auto split: option.splits)
  have p1: "\<forall>n\<in>fst s - set (snd s). c < n" using "4.prems"(6) by auto
  have cl: "c < length h" and csl: "\<forall>c\<in>set cs. c < length h"
    using "4.prems"(4) by simp_all
  from "4.IH"(1)[OF c "4.prems"(2,3) cl "4.prems"(5) p1]
  have inv1: "topo_inv h s1" and gr1: "grows s s1 {c}" and cin: "c \<in> set (snd s1)"
    by blast+
  from gr1 obtain n1 where n1: "snd s1 = snd s @ n1" "fst s1 = fst s \<union> set n1"
    unfolding grows_def by auto
  have "fst s1 - set (snd s1) \<subseteq> fst s - set (snd s)" using n1 by auto
  with "4.prems"(6) have p2: "\<forall>n\<in>fst s1 - set (snd s1). \<forall>c\<in>set cs. c < n"
    by (simp add: subset_iff)
  from "4.IH"(2)[OF c r "4.prems"(2,3) csl inv1 p2]
  have inv2: "topo_inv h s'" and gr2: "grows s1 s' (set cs)" and sub: "set cs \<subseteq> set (snd s')"
    by blast+
  from gr2 obtain n2 where n2: "snd s' = snd s1 @ n2" "fst s' = fst s1 \<union> set n2"
    "\<forall>x\<in>set n2. \<exists>c\<in>set cs. x \<le> c"
    unfolding grows_def by auto
  from gr1 n1(1) have b1: "\<forall>x\<in>set n1. x \<le> c" unfolding grows_def by auto
  have "grows s s' (set (c # cs))"
    unfolding grows_def
  proof (intro exI conjI)
    show "snd s' = snd s @ (n1 @ n2)" by (simp add: n1(1) n2(1))
    show "fst s' = fst s \<union> set (n1 @ n2)" by (auto simp: n1(2) n2(2))
    show "\<forall>x\<in>set (n1 @ n2). \<exists>c'\<in>set (c # cs). x \<le> c'"
      using b1 n2(3) by auto
  qed
  moreover have "set (c # cs) \<subseteq> set (snd s')" using cin sub n2(1) by auto
  ultimately show ?case using inv2 by blast
qed

lemma build_topo_returns:
  "operands_before h \<Longrightarrow> iter_ok iter \<Longrightarrow> v < length h \<Longrightarrow> v < k \<Longrightarrow>
     \<exists>s'. build_topo k iter h v s = Some s'"
  and build_children_returns:
  "operands_before h \<Longrightarrow> iter_ok iter \<Longrightarrow> (\<forall>c\<in>set cs. c < length h \<and> c < k) \<Longrightarrow>
     \<exists>s'. build_children k iter h cs s = Some s'"
proof (induction k iter h v s and k iter h cs s rule: build_topo_build_children.induct)
  case (1 iter h v s)
  then show ?case by simp
next
  case (2 k iter h v s)
  show ?case
  proof (cases "v \<in> fst s")
    case True
    then show ?thesis by simp
  next
    case False
    have cs: "set (iter v (prev (h ! v))) = prev (h ! v)"
      using iter_ok_set[OF "2.prems"(2,1,3)] .
    have "\<forall>c\<in>set (iter v (prev (h ! v))). c < length h \<and> c < k"
      using cs "2.prems"(1,3,4) unfolding operands_before_def by fastforce
    from "2.IH"[OF False "2.prems"(1,2) this] False show ?thesis by auto
  qed
next
  case (3 k iter h s)
  then show ?case by simp
next
  case (4 k iter h c cs s)
  from "4.IH"(1)[OF "4.prems"(1,2)] "4.prems"(3)
  obtain s1 where s1: "build_topo k iter h c s = Some s1" by auto
  from "4.IH"(2)[OF s1 "4.prems"(1,2)] "4.prems"(3) s1 show ?case by auto
qed

lemma reachable_refl: "v \<in> reachable h v"
  by (simp add: reachable_def)

lemma reachable_step: "c \<in> prev (h ! v) \<Longrightarrow> x \<in> reachable h c \<Longrightarrow> x \<in> reachable h v"
  unfolding reachable_def operand_rel_def
  by (auto intro: converse_rtrancl_into_rtrancl)

lemma operands_first_closed:
  assumes "operands_first h xs" and "v \<in> set xs" and "c \<in> prev (h ! v)"
  shows "c \<in> set xs"
proof -
  from assms(2) obtain i where i: "i < length xs" "xs ! i = v"
    unfolding in_set_conv_nth by blast
  with assms(1,3) obtain j where j: "j < i" "xs ! j = c"
    unfolding operands_first_def by blast
  from j(1) i(1) have "j < length xs" by simp
  with j(2) show ?thesis unfolding in_set_conv_nth by blast
qed

lemma reachable_subset:
  assumes "operands_first h xs" and "rt \<in> set xs"
  shows "reachable h rt \<subseteq> set xs"
proof
  fix x assume "x \<in> reachable h rt"
  then have "(rt, x) \<in> (operand_rel h)\<^sup>*" by (simp add: reachable_def)
  then show "x \<in> set xs"
  proof (induction rule: rtrancl_induct)
    case base
    show ?case by (rule assms(2))
  next
    case (step y z)
    from step(2) have "z \<in> prev (h ! y)" by (simp add: operand_rel_def)
    with assms(1) step(3) show ?case by (rule operands_first_closed)
  qed
qed

lemma build_topo_reachable:
  "build_topo k iter h v s = Some s' \<Longrightarrow> operands_before h \<Longrightarrow> iter_ok iter \<Longrightarrow>
     v < length h \<Longrightarrow> set (snd s') \<subseteq> set (snd s) \<union> reachable h v"
  and build_children_reachable:
  "build_children k iter h cs s = Some s' \<Longrightarrow> operands_before h \<Longrightarrow> iter_ok iter \<Longrightarrow>
     (\<forall>c\<in>set cs. c < length h) \<Longrightarrow>
     set (snd s') \<subseteq> set (snd s) \<union> (\<Union>c\<in>set cs. reachable h c)"
proof (induction k iter h v s and k iter h cs s arbitrary: s' and s'
        rule: build_topo_build_children.induct)
  case (1 iter h v s)
  then show ?case by simp
next
  case (2 k iter h v s)
  show ?case
  proof (cases "v \<in> fst s")
    case True
    with "2.prems"(1) show ?thesis by auto
  next
    case False
    let ?cs = "iter v (prev (h ! v))"
    from False "2.prems"(1) obtain s2 where
      ch: "build_children k iter h ?cs (insert v (fst s), snd s) = Some s2"
      and s': "s' = (fst s2, snd s2 @ [v])"
      by (auto split: option.splits)
    have cs: "set ?cs = prev (h ! v)"
      using iter_ok_set[OF "2.prems"(3,2,4)] .
    have lt: "\<forall>c\<in>set ?cs. c < v"
      using cs "2.prems"(2,4) unfolding operands_before_def by auto
    have bound: "\<forall>c\<in>set ?cs. c < length h" using lt "2.prems"(4) by auto
    from "2.IH"[OF False ch "2.prems"(2,3) bound]
    have sub: "set (snd s2) \<subseteq> set (snd s) \<union> (\<Union>c\<in>set ?cs. reachable h c)" by simp
    have "(\<Union>c\<in>set ?cs. reachable h c) \<subseteq> reachable h v"
      using cs by (auto intro: reachable_step)
    with sub have "set (snd s2) \<subseteq> set (snd s) \<union> reachable h v" by blast
    then show ?thesis unfolding s' using reachable_refl[of v h] by auto
  qed
next
  case (3 k iter h s)
  then show ?case by simp
next
  case (4 k iter h c cs s)
  from "4.prems"(1) obtain s1 where
    c: "build_topo k iter h c s = Some s1" and r: "build_children k iter h cs s1 = Some s'"
    by (auto split: option.splits)
  have cl: "c < length h" and csl: "\<forall>c\<in>set cs. c < length h"
    using "4.prems"(4) by simp_all
  from "4.IH"(1)[OF c "4.prems"(2,3) cl]
  have a: "set (snd s1) \<subseteq> set (snd s) \<union> reachable h c" .
  from "4.IH"(2)[OF c r "4.prems"(2,3) csl]
  have b: "set (snd s') \<subseteq> set (snd s1) \<union> (\<Union>c\<in>set cs. reachable h c)" .
  from a b show ?case by auto
qed

lemma build_topo_root:
  assumes ob: "operands_before h" and it: "iter_ok iter" and r: "rt < length h"
    and b: "build_topo k iter h rt ({}, []) = Some (vis, topo)"
  shows "distinct topo \<and> operands_first h topo \<and> set topo = reachable h rt
         \<and> (\<forall>x\<in>set topo. x \<le> rt) \<and> topo \<noteq> [] \<and> last topo = rt"
proof -
  have i0: "topo_inv h ({}, [])" by (simp add: topo_inv_def operands_first_def)
  from build_topo_inv[OF b ob it r i0]
  have inv: "topo_inv h (vis, topo)" and gr: "grows ({}, []) (vis, topo) {rt}"
    and rin: "rt \<in> set topo" by simp_all
  from inv have d: "distinct topo" and of: "operands_first h topo"
    by (simp_all add: topo_inv_def)
  from gr have le: "\<forall>x\<in>set topo. x \<le> rt" by (auto simp: grows_def)
  from build_topo_reachable[OF b ob it r] have "set topo \<subseteq> reachable h rt" by simp
  moreover from reachable_subset[OF of rin] have "reachable h rt \<subseteq> set topo" .
  ultimately have eq: "set topo = reachable h rt" by blast
  from rin have ne: "topo \<noteq> []" by auto
  have "last topo = rt"
  proof (rule ccontr)
    assume neq: "last topo \<noteq> rt"
    from rin obtain i where i: "i < length topo" "topo ! i = rt"
      unfolding in_set_conv_nth by blast
    have "i \<noteq> length topo - 1" using neq i ne by (auto simp: last_conv_nth)
    with i(1) have il: "i < length topo - 1" by simp
    let ?l = "last topo"
    have lin: "?l \<in> set topo" using ne by simp
    then have "?l \<in> reachable h rt" using eq by simp
    then have "(rt, ?l) \<in> (operand_rel h)\<^sup>*" by (simp add: reachable_def)
    then have "\<exists>j\<le>i. topo ! j = ?l"
    proof (induction rule: rtrancl_induct)
      case base
      show ?case using i(2) by blast
    next
      case (step y z)
      then obtain j where j: "j \<le> i" "topo ! j = y" by blast
      from step(2) have "z \<in> prev (h ! y)" by (simp add: operand_rel_def)
      from j(1) i(1) have "j < length topo" by simp
      with of j(2) \<open>z \<in> prev (h ! y)\<close> obtain j' where j': "j' < j" "topo ! j' = z"
        unfolding operands_first_def by blast
      from j'(1) j(1) have "j' \<le> i" by simp
      with j'(2) show ?case by blast
    qed
    then obtain j where j: "j \<le> i" "topo ! j = ?l" by blast
    have "topo ! (length topo - 1) = ?l" using ne by (simp add: last_conv_nth)
    with j(2) have same: "topo ! j = topo ! (length topo - 1)" by simp
    from j(1) il have jl: "j < length topo" by simp
    from ne have "length topo - 1 < length topo" by simp
    with d jl same have "j = length topo - 1" by (simp add: nth_eq_iff_index_eq)
    with j(1) il show False by simp
  qed
  with d of eq le ne show ?thesis by blast
qed

subsection \<open>What the operations change in the store\<close>

lemma add_grad_length [simp]: "length (add_grad h a x) = length h"
  by (simp add: add_grad_def)

lemma add_grad_nth:
  "add_grad h a x ! j =
     (if j = a \<and> a < length h then (h ! a)\<lparr>grad := grad (h ! a) + x\<rparr> else h ! j)"
proof (cases "a < length h")
  case True
  then show ?thesis by (simp add: add_grad_def nth_list_update)
next
  case False
  then have "length h \<le> a" by simp
  then have "h[a := (h ! a)\<lparr>grad := grad (h ! a) + x\<rparr>] = h" by (rule list_update_beyond)
  with False show ?thesis by (simp add: add_grad_def)
qed

lemma add_grad_same:
  "prev (add_grad h a x ! j) = prev (h ! j)"
  "data (add_grad h a x ! j) = data (h ! j)"
  "backward_rule (add_grad h a x ! j) = backward_rule (h ! j)"
  "label (add_grad h a x ! j) = label (h ! j)"
  "op (add_grad h a x ! j) = op (h ! j)"
  by (simp_all add: add_grad_nth)

lemma add_grad_grad:
  "a < length h \<Longrightarrow> grad (add_grad h a x ! j) = (if j = a then grad (h ! a) + x else grad (h ! j))"
  by (simp add: add_grad_nth)

lemma add_grad_other: "j \<noteq> a \<Longrightarrow> grad (add_grad h a x ! j) = grad (h ! j)"
  by (simp add: add_grad_nth)

lemma set_grad_length [simp]: "length (set_grad h a x) = length h"
  by (simp add: set_grad_def)

lemma set_grad_nth:
  "set_grad h a x ! j = (if j = a \<and> a < length h then (h ! a)\<lparr>grad := x\<rparr> else h ! j)"
proof (cases "a < length h")
  case True
  then show ?thesis by (simp add: set_grad_def nth_list_update)
next
  case False
  then have "length h \<le> a" by simp
  then have "h[a := (h ! a)\<lparr>grad := x\<rparr>] = h" by (rule list_update_beyond)
  with False show ?thesis by (simp add: set_grad_def)
qed

lemma set_grad_same:
  "prev (set_grad h a x ! j) = prev (h ! j)"
  "data (set_grad h a x ! j) = data (h ! j)"
  "backward_rule (set_grad h a x ! j) = backward_rule (h ! j)"
  "label (set_grad h a x ! j) = label (h ! j)"
  "op (set_grad h a x ! j) = op (h ! j)"
  by (simp_all add: set_grad_nth)

lemma set_grad_grad:
  "a < length h \<Longrightarrow> grad (set_grad h a x ! j) = (if j = a then x else grad (h ! j))"
  by (simp add: set_grad_nth)

lemma call_backward_same:
  assumes "call_backward h c = Inr h'"
  shows "length h' = length h \<and> prev (h' ! j) = prev (h ! j) \<and> data (h' ! j) = data (h ! j)
       \<and> backward_rule (h' ! j) = backward_rule (h ! j) \<and> label (h' ! j) = label (h ! j)
       \<and> op (h' ! j) = op (h ! j)"
proof (cases c)
  case Lambda_None
  with assms show ?thesis by (simp add: call_backward_def)
next
  case (Add_backward s b out)
  with assms have "h' = add_grad (add_grad h s (1 * grad (h ! out))) b
      (1 * grad (add_grad h s (1 * grad (h ! out)) ! out))"
    by (simp add: call_backward_def Let_def)
  then show ?thesis by (simp add: add_grad_same)
next
  case (Mul_backward s b out)
  with assms have "h' = add_grad (add_grad h s (data (h ! b) * grad (h ! out))) b
      (data (add_grad h s (data (h ! b) * grad (h ! out)) ! s)
        * grad (add_grad h s (data (h ! b) * grad (h ! out)) ! out))"
    by (simp add: call_backward_def Let_def)
  then show ?thesis by (simp add: add_grad_same)
next
  case (Pow_backward s p out)
  with assms obtain r where "h' = add_grad h s (num_val p * r * grad (h ! out))"
    by (auto simp: call_backward_def split: sum.splits)
  then show ?thesis by (simp add: add_grad_same)
next
  case (Relu_backward s out)
  with assms have "h' = add_grad h s ((if data (h ! s) > 0 then 1 else 0) * grad (h ! out))"
    by (simp add: call_backward_def)
  then show ?thesis by (simp add: add_grad_same)
qed

lemma call_backward_error: "call_backward h c = Inl e \<Longrightarrow> \<exists>s p out. c = Pow_backward s p out"
  by (cases c) (auto simp: call_backward_def Let_def split: sum.splits)

lemma run_rules_same:
  assumes "run_rules h vs = (h', r)"
  shows "length h' = length h \<and> prev (h' ! j) = prev (h ! j) \<and> data (h' ! j) = data (h ! j)
       \<and> backward_rule (h' ! j) = backward_rule (h ! j) \<and> label (h' ! j) = label (h ! j)
       \<and> op (h' ! j) = op (h ! j)"
  using assms
proof (induction vs arbitrary: h)
  case Nil
  then show ?case by simp
next
  case (Cons v vs)
  show ?case
  proof (cases "call_backward h (backward_rule (h ! v))")
    case (Inl e)
    with Cons.prems show ?thesis by simp
  next
    case (Inr h1)
    with Cons.prems have "run_rules h1 vs = (h', r)" by simp
    from Cons.IH[OF this] call_backward_same[OF Inr, of j] show ?thesis by simp
  qed
qed

lemma backward_same:
  assumes "backward limit iter h self = (h', r)"
  shows "length h' = length h \<and> prev (h' ! j) = prev (h ! j) \<and> data (h' ! j) = data (h ! j)
       \<and> backward_rule (h' ! j) = backward_rule (h ! j) \<and> label (h' ! j) = label (h ! j)
       \<and> op (h' ! j) = op (h ! j)"
proof (cases "build_topo limit iter h self ({}, [])")
  case None
  with assms show ?thesis by (simp add: backward_def)
next
  case (Some s)
  obtain vis topo where s: "s = (vis, topo)" by (cases s)
  obtain h1 r1 where rr: "run_rules (set_grad h self 1) (rev topo) = (h1, r1)"
    by (cases "run_rules (set_grad h self 1) (rev topo)")
  with assms Some s have "h' = h1" by (auto simp: backward_def split: option.splits)
  with run_rules_same[OF rr, of j] show ?thesis by (simp add: set_grad_same)
qed

subsection \<open>Stores built by the operations are well formed\<close>

lemma set_backward_snoc:
  "set_backward (h @ [n]) (length h) c = h @ [n\<lparr>backward_rule := c\<rparr>]"
  by (simp add: set_backward_def)

lemma wf_heap_empty: "wf_heap []"
  by (simp add: wf_heap_def operands_before_def closures_ok_def)

lemma wf_heap_snoc:
  assumes "wf_heap h" and "\<forall>c\<in>prev n. c < length h"
    and "closure_ok (length h) (backward_rule n)"
  shows "wf_heap (h @ [n])"
proof -
  have "operands_before (h @ [n])"
    unfolding operands_before_def
  proof (intro allI impI ballI)
    fix i c assume i: "i < length (h @ [n])" and c: "c \<in> prev ((h @ [n]) ! i)"
    show "c < i"
    proof (cases "i < length h")
      case True
      with c have "c \<in> prev (h ! i)" by (simp add: nth_append)
      with assms(1) True show ?thesis by (auto simp: wf_heap_def operands_before_def)
    next
      case False
      with i have "i = length h" by simp
      with c assms(2) show ?thesis by simp
    qed
  qed
  moreover have "closures_ok (h @ [n])"
    unfolding closures_ok_def
  proof (intro allI impI)
    fix i assume i: "i < length (h @ [n])"
    show "closure_ok i (backward_rule ((h @ [n]) ! i))"
    proof (cases "i < length h")
      case True
      with assms(1) show ?thesis by (simp add: nth_append wf_heap_def closures_ok_def)
    next
      case False
      with i have "i = length h" by simp
      with assms(3) show ?thesis by simp
    qed
  qed
  ultimately show ?thesis by (simp add: wf_heap_def)
qed

lemma wf_heap_cong:
  assumes "wf_heap h" and "length h' = length h"
    and "\<And>j. prev (h' ! j) = prev (h ! j)"
    and "\<And>j. backward_rule (h' ! j) = backward_rule (h ! j)"
  shows "wf_heap h'"
  using assms by (simp add: wf_heap_def operands_before_def closures_ok_def)

lemma Value_init_wf:
  assumes "wf_heap h" and "\<forall>c\<in>set prv. c < length h"
  shows "wf_heap (fst (Value_init h d lbl prv opr))"
  unfolding Value_init_def fst_conv
  by (rule wf_heap_snoc[OF assms(1)]) (use assms(2) in \<open>simp_all add: closure_ok_def\<close>)

lemma coerce_cases:
  assumes "coerce msg h other = Inr (h1, b)"
  shows "(other = Ref b \<and> h1 = h) \<or>
         (\<exists>n. other = Num n \<and> b = length h \<and>
            h1 = h @ [\<lparr>data = num_val n, grad = 0, backward_rule = Lambda_None, label = [],
                        prev = {}, op = No_op\<rparr>])"
  using assms by (cases other) (auto simp: coerce_def Value_init_def)

lemma coerce_wf:
  assumes "coerce msg h other = Inr (h1, b)" and "wf_heap h" and "obj_ok h other"
  shows "wf_heap h1 \<and> b < length h1 \<and> length h \<le> length h1 \<and> (\<forall>i<length h. h1 ! i = h ! i)"
proof -
  from coerce_cases[OF assms(1)] show ?thesis
  proof
    assume "other = Ref b \<and> h1 = h"
    with assms(2,3) show ?thesis by (simp add: obj_ok_def)
  next
    assume "\<exists>n. other = Num n \<and> b = length h \<and>
            h1 = h @ [\<lparr>data = num_val n, grad = 0, backward_rule = Lambda_None, label = [],
                        prev = {}, op = No_op\<rparr>]"
    then obtain n where b: "b = length h"
      and h1: "h1 = h @ [\<lparr>data = num_val n, grad = 0, backward_rule = Lambda_None, label = [],
                        prev = {}, op = No_op\<rparr>]" by blast
    have "wf_heap h1" unfolding h1
      by (rule wf_heap_snoc[OF assms(2)]) (simp_all add: closure_ok_def)
    with b h1 show ?thesis by (simp add: nth_append)
  qed
qed

lemma add_shape:
  assumes "add h self other = Inr (h', out)"
  shows "\<exists>h1 b. coerce add_msg h other = Inr (h1, b) \<and> out = length h1 \<and>
           h' = h1 @ [\<lparr>data = data (h1 ! self) + data (h1 ! b), grad = 0,
                        backward_rule = Add_backward self b out, label = [],
                        prev = {self, b}, op = Plus\<rparr>]"
  using assms
  by (auto simp: add_def Value_init_def set_backward_snoc split: sum.splits)

lemma mul_shape:
  assumes "mul h self other = Inr (h', out)"
  shows "\<exists>h1 b. coerce mul_msg h other = Inr (h1, b) \<and> out = length h1 \<and>
           h' = h1 @ [\<lparr>data = data (h1 ! self) * data (h1 ! b), grad = 0,
                        backward_rule = Mul_backward self b out, label = [],
                        prev = {self, b}, op = Times\<rparr>]"
  using assms
  by (auto simp: mul_def Value_init_def set_backward_snoc split: sum.splits)

lemma pow_shape:
  assumes "pow h self pwr = Inr (h', out)"
  shows "\<exists>p d. pwr = Num p \<and> py_pow (data (h ! self)) p = Inr d \<and> out = length h \<and>
           h' = h @ [\<lparr>data = d, grad = 0, backward_rule = Pow_backward self p out, label = [],
                       prev = {self}, op = Pow_op p\<rparr>]"
  using assms
  by (cases pwr) (auto simp: pow_def Value_init_def set_backward_snoc split: sum.splits)

lemma relu_shape:
  "relu h self = (h @ [\<lparr>data = max 0 (data (h ! self)), grad = 0,
                         backward_rule = Relu_backward self (length h), label = [],
                         prev = {self}, op = ReLU\<rparr>], length h)"
  by (simp add: relu_def Value_init_def set_backward_snoc)

lemma add_wf:
  assumes "add h self other = Inr (h', out)" and "wf_heap h" and "self < length h"
    and "obj_ok h other"
  shows "wf_heap h' \<and> out < length h' \<and> length h \<le> out \<and> (\<forall>i<length h. h' ! i = h ! i)"
proof -
  from add_shape[OF assms(1)] obtain h1 b where
    co: "coerce add_msg h other = Inr (h1, b)" and out: "out = length h1"
    and h': "h' = h1 @ [\<lparr>data = data (h1 ! self) + data (h1 ! b), grad = 0,
                        backward_rule = Add_backward self b out, label = [],
                        prev = {self, b}, op = Plus\<rparr>]" by blast
  from coerce_wf[OF co assms(2,4)]
  have w1: "wf_heap h1" and b: "b < length h1" and le: "length h \<le> length h1"
    and same: "\<forall>i<length h. h1 ! i = h ! i" by blast+
  from assms(3) le have s: "self < length h1" by simp
  have "wf_heap h'" unfolding h'
    by (rule wf_heap_snoc[OF w1]) (use s b out in \<open>simp_all add: closure_ok_def\<close>)
  moreover have "\<forall>i<length h. h' ! i = h ! i"
    using same le by (simp add: h' nth_append)
  ultimately show ?thesis using out le by (simp add: h')
qed

lemma mul_wf:
  assumes "mul h self other = Inr (h', out)" and "wf_heap h" and "self < length h"
    and "obj_ok h other"
  shows "wf_heap h' \<and> out < length h' \<and> length h \<le> out \<and> (\<forall>i<length h. h' ! i = h ! i)"
proof -
  from mul_shape[OF assms(1)] obtain h1 b where
    co: "coerce mul_msg h other = Inr (h1, b)" and out: "out = length h1"
    and h': "h' = h1 @ [\<lparr>data = data (h1 ! self) * data (h1 ! b), grad = 0,
                        backward_rule = Mul_backward self b out, label = [],
                        prev = {self, b}, op = Times\<rparr>]" by blast
  from coerce_wf[OF co assms(2,4)]
  have w1: "wf_heap h1" and b: "b < length h1" and le: "length h \<le> length h1"
    and same: "\<forall>i<length h. h1 ! i = h ! i" by blast+
  from assms(3) le have s: "self < length h1" by simp
  have "wf_heap h'" unfolding h'
    by (rule wf_heap_snoc[OF w1]) (use s b out in \<open>simp_all add: closure_ok_def\<close>)
  moreover have "\<forall>i<length h. h' ! i = h ! i"
    using same le by (simp add: h' nth_append)
  ultimately show ?thesis using out le by (simp add: h')
qed

lemma pow_wf:
  assumes "pow h self pwr = Inr (h', out)" and "wf_heap h" and "self < length h"
  shows "wf_heap h' \<and> out < length h' \<and> length h \<le> out \<and> (\<forall>i<length h. h' ! i = h ! i)"
proof -
  from pow_shape[OF assms(1)] obtain p d where out: "out = length h"
    and h': "h' = h @ [\<lparr>data = d, grad = 0, backward_rule = Pow_backward self p out,
                        label = [], prev = {self}, op = Pow_op p\<rparr>]" by blast
  have "wf_heap h'" unfolding h'
    by (rule wf_heap_snoc[OF assms(2)]) (use assms(3) out in \<open>simp_all add: closure_ok_def\<close>)
  then show ?thesis using out by (simp add: h' nth_append)
qed

lemma relu_wf:
  assumes "relu h self = (h', out)" and "wf_heap h" and "self < length h"
  shows "wf_heap h' \<and> out < length h' \<and> length h \<le> out \<and> (\<forall>i<length h. h' ! i = h ! i)"
proof -
  from assms(1) have out: "out = length h"
    and h': "h' = h @ [\<lparr>data = max 0 (data (h ! self)), grad = 0,
                         backward_rule = Relu_backward self (length h), label = [],
                         prev = {self}, op = ReLU\<rparr>]"
    by (auto simp: relu_shape)
  have "wf_heap h'" unfolding h'
    by (rule wf_heap_snoc[OF assms(2)]) (use assms(3) in \<open>simp_all add: closure_ok_def\<close>)
  then show ?thesis using out by (simp add: h' nth_append)
qed

lemma backward_wf:
  assumes "backward limit iter h self = (h', r)" and "wf_heap h"
  shows "wf_heap h'"
proof (rule wf_heap_cong[OF assms(2)])
  show "length h' = length h" using backward_same[OF assms(1)] by simp
  show "prev (h' ! j) = prev (h ! j)" for j using backward_same[OF assms(1), of j] by simp
  show "backward_rule (h' ! j) = backward_rule (h ! j)" for j
    using backward_same[OF assms(1), of j] by simp
qed

lemma built_wf: "built h \<Longrightarrow> wf_heap h"
proof (induction rule: built.induct)
  case built_empty
  show ?case by (rule wf_heap_empty)
next
  case (built_Value h prv d lbl opr)
  then show ?case by (simp add: Value_init_wf)
next
  case (built_add h self other h' out)
  from add_wf[OF built_add(4) built_add.IH built_add(2,3)] show ?case by simp
next
  case (built_mul h self other h' out)
  from mul_wf[OF built_mul(4) built_mul.IH built_mul(2,3)] show ?case by simp
next
  case (built_pow h self pwr h' out)
  from pow_wf[OF built_pow(3) built_pow.IH built_pow(2)] show ?case by simp
next
  case (built_relu h self h' out)
  from relu_wf[OF built_relu(3) built_relu.IH built_relu(2)] show ?case by simp
next
  case (built_backward h self limit iter h' r)
  from backward_wf[OF built_backward(3) built_backward.IH] show ?case .
next
  case (built_set_grad h a x)
  show ?case
    by (rule wf_heap_cong[OF built_set_grad.IH]) (simp_all add: set_grad_same)
qed

lemma iter_ok_sorted_iter: "iter_ok sorted_iter"
  by (simp add: iter_ok_def sorted_iter_def)

lemma sorted_iter_simps:
  "sorted_iter v {} = []"
  "sorted_iter v {a} = [a]"
  "a < b \<Longrightarrow> sorted_iter v {a, b} = [a, b]"
  by (simp_all add: sorted_iter_def)

lemma scenario_eq:
  "scenario = Inr
     ([\<lparr>data = - 2, grad = 0, backward_rule = Lambda_None, label = [], prev = {}, op = No_op\<rparr>,
       \<lparr>data = 3, grad = 0, backward_rule = Lambda_None, label = [], prev = {}, op = No_op\<rparr>,
       \<lparr>data = - 6, grad = 0, backward_rule = Mul_backward 0 1 2, label = [], prev = {0, 1},
          op = Times\<rparr>,
       \<lparr>data = 0, grad = 0, backward_rule = Relu_backward 0 3, label = [], prev = {0},
          op = ReLU\<rparr>,
       \<lparr>data = - 6, grad = 0, backward_rule = Add_backward 2 3 4, label = [], prev = {2, 3},
          op = Plus\<rparr>], 0, 1, 4)"
  by (simp add: scenario_def leaf_def Value_init_def mul_def add_def relu_def coerce_def
      set_backward_def eval_nat_numeral)

lemma scenario_built: "built scenario_heap"
proof -
  define h1 where "h1 = fst (leaf [] (- 2))"
  define h2 where "h2 = fst (leaf h1 3)"
  define h3 where "h3 = fst (projr (mul h2 0 (Ref 1)))"
  define h4 where "h4 = fst (relu h3 0)"
  have b1: "built h1" unfolding h1_def leaf_def
    by (rule built_Value[OF built_empty]) simp
  have b2: "built h2" unfolding h2_def leaf_def
    by (rule built_Value[OF b1]) simp
  have l2: "length h2 = 2" by (simp add: h2_def h1_def leaf_def Value_init_def)
  have m: "mul h2 0 (Ref 1) = Inr (h3, 2)"
    by (simp add: h3_def mul_def coerce_def Value_init_def l2)
  have b3: "built h3"
    by (rule built_mul[OF b2 _ _ m]) (simp_all add: l2 obj_ok_def)
  have l3: "length h3 = 3"
    using mul_shape[OF m] by (auto simp: coerce_def)
  have r: "relu h3 0 = (h4, 3)" by (simp add: h4_def relu_shape l3)
  have b4: "built h4" by (rule built_relu[OF b3 _ r]) (simp add: l3)
  have l4: "length h4 = 4" by (simp add: h4_def relu_shape l3)
  have h2_eq: "h2 =
     [\<lparr>data = - 2, grad = 0, backward_rule = Lambda_None, label = [], prev = {}, op = No_op\<rparr>,
      \<lparr>data = 3, grad = 0, backward_rule = Lambda_None, label = [], prev = {}, op = No_op\<rparr>]"
    by (simp add: h2_def h1_def leaf_def Value_init_def)
  have sc: "scenario =
      (case add h4 2 (Ref 3) of Inl e \<Rightarrow> Inl e | Inr (h5, z) \<Rightarrow> Inr (h5, 0, 1, z))"
    using m[unfolded h2_eq] r
    by (simp add: scenario_def leaf_def Value_init_def split: sum.splits)
  obtain h5 where h5: "scenario = Inr (h5, 0, 1, 4)" using scenario_eq by blast
  from sc[unfolded h5] have a: "add h4 2 (Ref 3) = Inr (h5, 4)"
    by (cases "add h4 2 (Ref 3)") auto
  have "built h5" by (rule built_add[OF b4 _ _ a]) (simp_all add: l4 obj_ok_def)
  then show ?thesis unfolding scenario_heap_def h5 by simp
qed

lemma built_operands_before: "built h \<Longrightarrow> operands_before h"
  using built_wf by (simp add: wf_heap_def)

lemma operands_first_cong:
  assumes "\<And>j. prev (h' ! j) = prev (h ! j)"
  shows "operands_first h' xs = operands_first h xs"
  by (simp add: operands_first_def assms)

lemma reachable_cong:
  assumes "\<And>j. prev (h' ! j) = prev (h ! j)"
  shows "reachable h' v = reachable h v"
  by (simp add: reachable_def operand_rel_def assms)

lemma backward_topo:
  assumes "backward limit iter h self = (h', Inr topo)"
  shows "\<exists>vis. build_topo limit iter h self ({}, []) = Some (vis, topo)"
proof (cases "build_topo limit iter h self ({}, [])")
  case None
  with assms show ?thesis by (simp add: backward_def)
next
  case (Some s)
  obtain vis t where s: "s = (vis, t)" by (cases s)
  obtain h1 r1 where rr: "run_rules (set_grad h self 1) (rev t) = (h1, r1)"
    by (cases "run_rules (set_grad h self 1) (rev t)")
  from assms Some s rr have "t = topo"
    by (cases r1) (simp_all add: backward_def)
  with Some s show ?thesis by simp
qed

text \<open>
  C1. In a store where every object's operands were created before it, the list that
  \<open>backward\<close> returns is a topological order of what is reachable from the object it was
  called on: no object occurs twice, every operand of an object in the list occurs at a
  smaller index, and the objects in the list are exactly the reachable ones.
\<close>

theorem backward_topological_order:
  assumes "operands_before h" and "iter_ok iter" and "self < length h"
    and "backward limit iter h self = (h', Inr topo)"
  shows "distinct topo \<and> operands_first h' topo \<and> set topo = reachable h' self"
proof -
  from backward_topo[OF assms(4)] obtain vis where
    b: "build_topo limit iter h self ({}, []) = Some (vis, topo)" by blast
  from build_topo_root[OF assms(1,2,3) b]
  have d: "distinct topo" and of: "operands_first h topo" and eq: "set topo = reachable h self"
    by blast+
  have same: "prev (h' ! j) = prev (h ! j)" for j
    using backward_same[OF assms(4), of j] by simp
  from d of eq show ?thesis
    by (simp add: operands_first_cong[of h' h, OF same] reachable_cong[of h' h, OF same])
qed

lemma scenario_heap_eq:
  "scenario_heap =
     [\<lparr>data = - 2, grad = 0, backward_rule = Lambda_None, label = [], prev = {}, op = No_op\<rparr>,
       \<lparr>data = 3, grad = 0, backward_rule = Lambda_None, label = [], prev = {}, op = No_op\<rparr>,
       \<lparr>data = - 6, grad = 0, backward_rule = Mul_backward 0 1 2, label = [], prev = {0, 1},
          op = Times\<rparr>,
       \<lparr>data = 0, grad = 0, backward_rule = Relu_backward 0 3, label = [], prev = {0},
          op = ReLU\<rparr>,
       \<lparr>data = - 6, grad = 0, backward_rule = Add_backward 2 3 4, label = [], prev = {2, 3},
          op = Plus\<rparr>]"
  unfolding scenario_heap_def scenario_eq by simp

lemma scenario_topo:
  "build_topo 10 sorted_iter scenario_heap 4 ({}, []) = Some ({0, 1, 2, 3, 4}, [0, 1, 2, 3, 4])"
  unfolding scenario_heap_eq
  by (simp add: eval_nat_numeral sorted_iter_def insert_commute)

lemma scenario_backward:
  "\<exists>h'. backward 10 sorted_iter scenario_heap 4 = (h', Inr [0, 1, 2, 3, 4])
        \<and> grad (h' ! 0) = 3 \<and> grad (h' ! 1) = - 2 \<and> data (h' ! 4) = - 6"
  unfolding backward_def scenario_topo
  unfolding scenario_heap_eq
  by (simp add: set_grad_def call_backward_def add_grad_def)

theorem backward_topological_order_witness:
  "operands_before scenario_heap \<and> iter_ok sorted_iter \<and> 4 < length scenario_heap \<and>
   (\<exists>h'. backward 10 sorted_iter scenario_heap 4 = (h', Inr [0, 1, 2, 3, 4]) \<and>
      distinct [0, 1, 2, 3, 4 :: addr] \<and> operands_first h' [0, 1, 2, 3, 4] \<and>
      set [0, 1, 2, 3, 4] = reachable h' 4)"
proof -
  have ob: "operands_before scenario_heap"
    by (rule built_operands_before[OF scenario_built])
  have len: "4 < length scenario_heap" by (simp add: scenario_heap_eq)
  from scenario_backward obtain h' where
    b: "backward 10 sorted_iter scenario_heap 4 = (h', Inr [0, 1, 2, 3, 4])" by blast
  from backward_topological_order[OF ob iter_ok_sorted_iter len b] ob len b
  show ?thesis using iter_ok_sorted_iter by blast
qed

lemma py_pow_error: "py_pow x p = Inl e \<Longrightarrow> e = ZeroDivisionError \<or> e = ComplexResult"
  by (cases p) (auto simp: py_pow_def split: if_splits)

lemma call_backward_error_kind:
  "call_backward h c = Inl e \<Longrightarrow> e = ZeroDivisionError \<or> e = ComplexResult"
  by (cases c) (auto simp: call_backward_def Let_def split: sum.splits dest: py_pow_error)

lemma run_rules_error_kind:
  "run_rules h vs = (h', Some e) \<Longrightarrow> e = ZeroDivisionError \<or> e = ComplexResult"
proof (induction vs arbitrary: h)
  case Nil
  then show ?case by simp
next
  case (Cons v vs)
  show ?case
  proof (cases "call_backward h (backward_rule (h ! v))")
    case (Inl e')
    with Cons.prems have "e = e'" by simp
    with call_backward_error_kind[OF Inl] show ?thesis by simp
  next
    case (Inr h1)
    with Cons.prems have "run_rules h1 vs = (h', Some e)" by simp
    then show ?thesis by (rule Cons.IH)
  qed
qed

text \<open>
  C10. In a store built by the public operations, with a recursion limit above the
  address of the object, \<open>backward\<close> ends: the depth-first construction returns a list
  holding every reachable object exactly once, and the loop over the reversed list, a
  recursion over that finite list, either runs every closure and returns the list or
  stops at a closure of a power that raises. It never runs out of recursion depth.
\<close>

theorem backward_terminates:
  assumes "built h" and "iter_ok iter" and "self < length h" and "self < limit"
  shows "\<exists>vis topo h' r.
           build_topo limit iter h self ({}, []) = Some (vis, topo) \<and>
           distinct topo \<and> set topo = reachable h self \<and>
           backward limit iter h self = (h', r) \<and>
           (r = Inr topo \<or> r = Inl ZeroDivisionError \<or> r = Inl ComplexResult)"
proof -
  have ob: "operands_before h" by (rule built_operands_before[OF assms(1)])
  from build_topo_returns[OF ob assms(2,3,4)] obtain s where
    "build_topo limit iter h self ({}, []) = Some s" by blast
  then obtain vis topo where b: "build_topo limit iter h self ({}, []) = Some (vis, topo)"
    by (cases s) simp
  from build_topo_root[OF ob assms(2,3) b]
  have d: "distinct topo" and eq: "set topo = reachable h self" by blast+
  obtain h' r1 where rr: "run_rules (set_grad h self 1) (rev topo) = (h', r1)"
    by (cases "run_rules (set_grad h self 1) (rev topo)")
  show ?thesis
  proof (cases r1)
    case None
    with b rr have "backward limit iter h self = (h', Inr topo)" by (simp add: backward_def)
    with b d eq show ?thesis by blast
  next
    case (Some e)
    with b rr have bw: "backward limit iter h self = (h', Inl e)" by (simp add: backward_def)
    from rr Some have "e = ZeroDivisionError \<or> e = ComplexResult"
      by (auto dest: run_rules_error_kind)
    with b d eq bw show ?thesis by blast
  qed
qed

theorem backward_terminates_witness:
  "built scenario_heap \<and> iter_ok sorted_iter \<and> 4 < length scenario_heap \<and> (4::nat) < 10 \<and>
   (\<exists>vis topo h' r.
      build_topo 10 sorted_iter scenario_heap 4 ({}, []) = Some (vis, topo) \<and>
      distinct topo \<and> set topo = reachable scenario_heap 4 \<and>
      backward 10 sorted_iter scenario_heap 4 = (h', r) \<and>
      (r = Inr topo \<or> r = Inl ZeroDivisionError \<or> r = Inl ComplexResult))"
proof -
  have len: "4 < length scenario_heap" by (simp add: scenario_heap_eq)
  have lim: "(4::nat) < 10" by simp
  from backward_terminates[OF scenario_built iter_ok_sorted_iter len lim]
  show ?thesis using scenario_built iter_ok_sorted_iter len by simp
qed

subsection \<open>Gradients are accumulated\<close>

lemma call_backward_grad:
  assumes "call_backward h c = Inr h'" and "closure_ok i c" and "i < length h"
  shows "grad (h' ! a) = grad (h ! a) + contribution h c a"
proof (cases c)
  case Lambda_None
  with assms(1) show ?thesis by (simp add: call_backward_def contribution_def)
next
  case (Add_backward s b out)
  with assms(2,3) have o: "out = i" and s: "s < length h" "s \<noteq> out"
    and b: "b < length h" "b \<noteq> out"
    by (auto simp: closure_ok_def)
  let ?g = "grad (h ! out)"
  let ?h1 = "add_grad h s (1 * ?g)"
  from s(2) have g1: "grad (?h1 ! out) = ?g" by (simp add: add_grad_other)
  from assms(1) Add_backward have h': "h' = add_grad ?h1 b (1 * grad (?h1 ! out))"
    by (simp add: call_backward_def Let_def)
  have "grad (h' ! a) = (if a = b then grad (?h1 ! b) + ?g else grad (?h1 ! a))"
    unfolding h' g1 using b(1) by (simp add: add_grad_grad)
  also have "\<dots> = grad (h ! a) + contribution h c a"
    using s(1) by (simp add: add_grad_grad contribution_def Add_backward)
  finally show ?thesis .
next
  case (Mul_backward s b out)
  with assms(2,3) have o: "out = i" and s: "s < length h" "s \<noteq> out"
    and b: "b < length h" "b \<noteq> out"
    by (auto simp: closure_ok_def)
  let ?x = "data (h ! b) * grad (h ! out)"
  let ?h1 = "add_grad h s ?x"
  from s(2) have g1: "grad (?h1 ! out) = grad (h ! out)" by (simp add: add_grad_other)
  have d1: "data (?h1 ! s) = data (h ! s)" by (simp add: add_grad_same)
  from assms(1) Mul_backward
  have h': "h' = add_grad ?h1 b (data (?h1 ! s) * grad (?h1 ! out))"
    by (simp add: call_backward_def Let_def)
  have "grad (h' ! a) =
      (if a = b then grad (?h1 ! b) + data (h ! s) * grad (h ! out) else grad (?h1 ! a))"
    unfolding h' g1 d1 using b(1) by (simp add: add_grad_grad)
  also have "\<dots> = grad (h ! a) + contribution h c a"
    using s(1) by (simp add: add_grad_grad contribution_def Mul_backward)
  finally show ?thesis .
next
  case (Pow_backward s p out)
  with assms(2,3) have s: "s < length h" by (auto simp: closure_ok_def)
  from assms(1) Pow_backward obtain r where
    r: "py_pow (data (h ! s)) (num_minus_one p) = Inr r"
    and h': "h' = add_grad h s (num_val p * r * grad (h ! out))"
    by (auto simp: call_backward_def split: sum.splits)
  show ?thesis unfolding h' using s r
    by (simp add: add_grad_grad contribution_def Pow_backward)
next
  case (Relu_backward s out)
  with assms(2,3) have s: "s < length h" by (auto simp: closure_ok_def)
  from assms(1) Relu_backward
  have h': "h' = add_grad h s ((if data (h ! s) > 0 then 1 else 0) * grad (h ! out))"
    by (simp add: call_backward_def)
  show ?thesis unfolding h' using s
    by (simp add: add_grad_grad contribution_def Relu_backward)
qed

lemma contribution_zero:
  assumes "closure_ok i c" and "i \<le> a"
  shows "contribution h c a = 0"
  using assms by (cases c) (auto simp: contribution_def closure_ok_def)

lemma closures_ok_cong:
  assumes "closures_ok h" and "length h' = length h"
    and "\<And>j. backward_rule (h' ! j) = backward_rule (h ! j)"
  shows "closures_ok h'"
  using assms by (simp add: closures_ok_def)

lemma run_rules_grad:
  assumes "run_rules h vs = (h', r)" and "closures_ok h" and "\<forall>v\<in>set vs. v < length h"
  shows "grad (h' ! a) = grad (h ! a) + pushed_total h vs a"
  using assms
proof (induction vs arbitrary: h)
  case Nil
  then show ?case by simp
next
  case (Cons v vs)
  let ?c = "backward_rule (h ! v)"
  from Cons.prems(3) have v: "v < length h" by simp
  with Cons.prems(2) have ok: "closure_ok v ?c" by (simp add: closures_ok_def)
  show ?case
  proof (cases "call_backward h ?c")
    case (Inl e)
    with Cons.prems(1) show ?thesis by simp
  next
    case (Inr h1)
    with Cons.prems(1) have rr: "run_rules h1 vs = (h', r)" by simp
    have len: "length h1 = length h" using call_backward_same[OF Inr] by simp
    have ok1: "closures_ok h1"
      by (rule closures_ok_cong[OF Cons.prems(2) len]) (use call_backward_same[OF Inr] in simp)
    from Cons.prems(3) len have "\<forall>v\<in>set vs. v < length h1" by simp
    from Cons.IH[OF rr ok1 this]
    have "grad (h' ! a) = grad (h1 ! a) + pushed_total h1 vs a" .
    also have "grad (h1 ! a) = grad (h ! a) + contribution h ?c a"
      by (rule call_backward_grad[OF Inr ok v])
    finally show ?thesis using Inr by simp
  qed
qed

lemma pushed_total_zero:
  assumes "closures_ok h" and "\<forall>v\<in>set vs. v < length h \<and> v \<le> a"
  shows "pushed_total h vs a = 0"
  using assms
proof (induction vs arbitrary: h)
  case Nil
  then show ?case by simp
next
  case (Cons v vs)
  let ?c = "backward_rule (h ! v)"
  from Cons.prems(2) have v: "v < length h" "v \<le> a" by simp_all
  with Cons.prems(1) have ok: "closure_ok v ?c" by (simp add: closures_ok_def)
  show ?case
  proof (cases "call_backward h ?c")
    case (Inl e)
    then show ?thesis by simp
  next
    case (Inr h1)
    have len: "length h1 = length h" using call_backward_same[OF Inr] by simp
    have ok1: "closures_ok h1"
      by (rule closures_ok_cong[OF Cons.prems(1) len]) (use call_backward_same[OF Inr] in simp)
    from Cons.prems(2) len have "\<forall>v\<in>set vs. v < length h1 \<and> v \<le> a" by simp
    from Cons.IH[OF ok1 this] contribution_zero[OF ok v(2)] Inr show ?thesis by simp
  qed
qed

lemma built_closures_ok: "built h \<Longrightarrow> closures_ok h"
  using built_wf by (simp add: wf_heap_def)

lemma backward_run:
  assumes "build_topo limit iter h self ({}, []) = Some (vis, topo)"
  shows "backward limit iter h self =
           (fst (run_rules (set_grad h self 1) (rev topo)),
            case snd (run_rules (set_grad h self 1) (rev topo)) of
              Some e \<Rightarrow> Inl e | None \<Rightarrow> Inr topo)"
  using assms by (simp add: backward_def split: prod.splits option.splits)

text \<open>
  C4. \<open>backward\<close> stores 1 in the gradient of the object it is called on, after the list
  is built and before any closure runs, and that gradient is still 1 at the end; the
  gradient of every other object ends as its value at the call plus the total of what the
  closures pushed onto it. Nothing is reset to zero.
\<close>

theorem backward_accumulates:
  assumes "built h" and "iter_ok iter" and "self < length h" and "self < limit"
  shows "\<exists>vis topo h' r.
           build_topo limit iter h self ({}, []) = Some (vis, topo) \<and>
           backward limit iter h self = (h', r) \<and>
           run_rules (set_grad h self 1) (rev topo) = (h', case r of Inl e \<Rightarrow> Some e | Inr t \<Rightarrow> None) \<and>
           grad (set_grad h self 1 ! self) = 1 \<and>
           grad (h' ! self) = 1 \<and>
           (\<forall>a. a \<noteq> self \<longrightarrow>
              grad (h' ! a) = grad (h ! a) + pushed_total (set_grad h self 1) (rev topo) a)"
proof -
  have ob: "operands_before h" by (rule built_operands_before[OF assms(1)])
  from build_topo_returns[OF ob assms(2,3,4)] obtain s where
    "build_topo limit iter h self ({}, []) = Some s" by blast
  then obtain vis topo where b: "build_topo limit iter h self ({}, []) = Some (vis, topo)"
    by (cases s) simp
  from build_topo_root[OF ob assms(2,3) b] have le: "\<forall>x\<in>set topo. x \<le> self" by blast
  let ?h0 = "set_grad h self 1"
  obtain h' r1 where rr: "run_rules ?h0 (rev topo) = (h', r1)"
    by (cases "run_rules ?h0 (rev topo)")
  define r where "r = (case r1 of Some e \<Rightarrow> Inl e | None \<Rightarrow> Inr topo)"
  have bw: "backward limit iter h self = (h', r)"
    using backward_run[OF b] rr by (simp add: r_def)
  have rr': "run_rules ?h0 (rev topo) = (h', case r of Inl e \<Rightarrow> Some e | Inr t \<Rightarrow> None)"
    using rr by (simp add: r_def split: option.splits)
  have ok0: "closures_ok ?h0"
    by (rule closures_ok_cong[OF built_closures_ok[OF assms(1)]]) (simp_all add: set_grad_same)
  have bound: "\<forall>v\<in>set (rev topo). v < length ?h0" using le assms(3) by auto
  have acc: "grad (h' ! a) = grad (?h0 ! a) + pushed_total ?h0 (rev topo) a" for a
    by (rule run_rules_grad[OF rr ok0 bound])
  have seed: "grad (?h0 ! self) = 1" using assms(3) by (simp add: set_grad_grad)
  have "\<forall>v\<in>set (rev topo). v < length ?h0 \<and> v \<le> self" using le assms(3) by auto
  from pushed_total_zero[OF ok0 this] have "pushed_total ?h0 (rev topo) self = 0" .
  with acc[of self] seed have g1: "grad (h' ! self) = 1" by simp
  have other: "\<forall>a. a \<noteq> self \<longrightarrow> grad (h' ! a) = grad (h ! a) + pushed_total ?h0 (rev topo) a"
  proof (intro allI impI)
    fix a assume "a \<noteq> self"
    then have "grad (?h0 ! a) = grad (h ! a)" by (simp add: set_grad_nth)
    with acc[of a] show "grad (h' ! a) = grad (h ! a) + pushed_total ?h0 (rev topo) a" by simp
  qed
  from b bw rr' seed g1 other show ?thesis by blast
qed

theorem backward_accumulates_witness:
  "built (set_grad scenario_heap 0 5) \<and> iter_ok sorted_iter \<and>
   4 < length (set_grad scenario_heap 0 5) \<and> (4::nat) < 10 \<and>
   (\<exists>vis topo h' r.
      build_topo 10 sorted_iter (set_grad scenario_heap 0 5) 4 ({}, []) = Some (vis, topo) \<and>
      backward 10 sorted_iter (set_grad scenario_heap 0 5) 4 = (h', r) \<and>
      run_rules (set_grad (set_grad scenario_heap 0 5) 4 1) (rev topo)
        = (h', case r of Inl e \<Rightarrow> Some e | Inr t \<Rightarrow> None) \<and>
      grad (set_grad (set_grad scenario_heap 0 5) 4 1 ! 4) = 1 \<and>
      grad (h' ! 4) = 1 \<and>
      (\<forall>a. a \<noteq> 4 \<longrightarrow>
         grad (h' ! a) = grad (set_grad scenario_heap 0 5 ! a)
           + pushed_total (set_grad (set_grad scenario_heap 0 5) 4 1) (rev topo) a))"
proof -
  have b: "built (set_grad scenario_heap 0 5)" by (rule built_set_grad[OF scenario_built])
  have len: "4 < length (set_grad scenario_heap 0 5)" by (simp add: scenario_heap_eq)
  have lim: "(4::nat) < 10" by simp
  from backward_accumulates[OF b iter_ok_sorted_iter len lim]
  show ?thesis using b iter_ok_sorted_iter len by simp
qed

lemma no_reset_example:
  "grad (set_grad scenario_heap 0 5 ! 0) = 5 \<and>
   grad (fst (backward 10 sorted_iter (set_grad scenario_heap 0 5) 4) ! 0) = 8"
  unfolding scenario_heap_eq
  by (simp add: backward_def set_grad_def call_backward_def add_grad_def eval_nat_numeral
      sorted_iter_def insert_commute)

lemma reachable_le:
  assumes "operands_before h" and "v < length h" and "x \<in> reachable h v"
  shows "x \<le> v"
proof -
  from assms(3) have "(v, x) \<in> (operand_rel h)\<^sup>*" by (simp add: reachable_def)
  then show ?thesis
  proof (induction rule: rtrancl_induct)
    case base
    show ?case by simp
  next
    case (step y z)
    from step(2) have z: "z \<in> prev (h ! y)" by (simp add: operand_rel_def)
    from step(3) assms(2) have "y < length h" by simp
    with assms(1) z have "z < y" by (auto simp: operands_before_def)
    with step(3) show ?case by simp
  qed
qed

lemma reachable_cases:
  assumes "x \<in> reachable h v"
  shows "x = v \<or> (\<exists>c\<in>prev (h ! v). x \<in> reachable h c)"
proof -
  from assms have "(v, x) \<in> (operand_rel h)\<^sup>*" by (simp add: reachable_def)
  then show ?thesis
  proof (cases rule: converse_rtranclE)
    case base
    then show ?thesis by simp
  next
    case (step y)
    from step(1) have "y \<in> prev (h ! v)" by (simp add: operand_rel_def)
    moreover from step(2) have "x \<in> reachable h y" by (simp add: reachable_def)
    ultimately show ?thesis by blast
  qed
qed

text \<open>
  \<open>backward\<close> on an object \<open>b\<close> whose operands all lie at or below \<open>a\<close>: the gradient of
  \<open>a\<close> ends as its value at the call plus what the closure of \<open>b\<close>, called first with
  \<open>b.grad = 1\<close>, pushes onto it. The closures called later belong to objects at or below
  \<open>a\<close> and write only below themselves.
\<close>

lemma backward_first_closure:
  assumes wf: "wf_heap h" and it: "iter_ok iter" and b: "b < length h" and lim: "b < limit"
    and ops: "\<forall>c\<in>prev (h ! b). c \<le> a" and ab: "a < b"
    and cb: "call_backward (set_grad h b 1) (backward_rule (h ! b)) = Inr hb"
  shows "\<exists>h' r. backward limit iter h b = (h', r) \<and> r \<noteq> Inl RecursionError \<and>
           grad (h' ! a) = grad (h ! a) + contribution (set_grad h b 1) (backward_rule (h ! b)) a"
proof -
  from wf have ob: "operands_before h" and ok: "closures_ok h" by (simp_all add: wf_heap_def)
  from build_topo_returns[OF ob it b lim] obtain s where
    "build_topo limit iter h b ({}, []) = Some s" by blast
  then obtain vis topo where bt: "build_topo limit iter h b ({}, []) = Some (vis, topo)"
    by (cases s) simp
  from build_topo_root[OF ob it b bt]
  have d: "distinct topo" and eq: "set topo = reachable h b" and ne: "topo \<noteq> []"
    and last: "last topo = b" by blast+
  from ne last have split: "topo = butlast topo @ [b]"
    by (metis append_butlast_last_id)
  let ?rest = "rev (butlast topo)"
  from split have rv: "rev topo = b # ?rest" by (metis rev.simps(2) rev_rev_ident rev_swap)
  have rest_le: "\<forall>v\<in>set ?rest. v \<le> a"
  proof
    fix v assume v: "v \<in> set ?rest"
    then have vin: "v \<in> set topo" by (auto dest: in_set_butlastD)
    from d split have "b \<notin> set (butlast topo)" by (metis distinct_append disjoint_iff list.set_intros(1))
    with v have "v \<noteq> b" by auto
    with vin eq reachable_cases[of v h b] obtain c where
      c: "c \<in> prev (h ! b)" "v \<in> reachable h c" by blast
    from ops c(1) have ca: "c \<le> a" by blast
    with ab b have "c < length h" by simp
    from reachable_le[OF ob this c(2)] ca show "v \<le> a" by simp
  qed
  let ?h0 = "set_grad h b 1"
  let ?c = "backward_rule (h ! b)"
  have ok0: "closures_ok ?h0"
    by (rule closures_ok_cong[OF ok]) (simp_all add: set_grad_same)
  have c0: "backward_rule (?h0 ! b) = ?c" by (simp add: set_grad_same)
  obtain h' r1 where rr: "run_rules hb ?rest = (h', r1)" by (cases "run_rules hb ?rest")
  have run: "run_rules ?h0 (rev topo) = (h', r1)"
    unfolding rv using cb c0 rr by simp
  define r where "r = (case r1 of Some e \<Rightarrow> Inl e | None \<Rightarrow> Inr topo)"
  have bw: "backward limit iter h b = (h', r)"
    using backward_run[OF bt] run by (simp add: r_def)
  have nr: "r \<noteq> Inl RecursionError"
  proof (cases r1)
    case None
    then show ?thesis by (simp add: r_def)
  next
    case (Some e)
    with rr run_rules_error_kind[of hb ?rest h' e] show ?thesis by (auto simp: r_def)
  qed
  have lenb: "length hb = length h" using call_backward_same[OF cb] by simp
  have okb: "closures_ok hb"
    by (rule closures_ok_cong[OF ok0]) (use call_backward_same[OF cb] in simp_all)
  have bound: "\<forall>v\<in>set ?rest. v < length hb \<and> v \<le> a"
    using rest_le ab b lenb by auto
  then have bound': "\<forall>v\<in>set ?rest. v < length hb" by blast
  from run_rules_grad[OF rr okb bound'] pushed_total_zero[OF okb bound]
  have "grad (h' ! a) = grad (hb ! a)" by simp
  also have "\<dots> = grad (?h0 ! a) + contribution ?h0 ?c a"
  proof (rule call_backward_grad[OF cb])
    from ok b show "closure_ok b ?c" by (simp add: closures_ok_def)
    from b show "b < length ?h0" by simp
  qed
  also have "grad (?h0 ! a) = grad (h ! a)" using ab by (simp add: set_grad_nth)
  finally show ?thesis using bw nr by blast
qed

lemma built_leaf: "built h \<Longrightarrow> built (fst (leaf h d))"
  unfolding leaf_def by (rule built_Value) simp_all

lemma leaf_eq:
  "leaf h d = (h @ [\<lparr>data = d, grad = 0, backward_rule = Lambda_None, label = [], prev = {},
                      op = No_op\<rparr>], length h)"
  by (simp add: leaf_def Value_init_def)

text \<open>
  C2. For an object \<open>a\<close> with gradient 0, \<open>b = a + a\<close> followed by \<open>b.backward()\<close> leaves
  \<open>a.grad = 2\<close>: the closure of \<open>b\<close> adds \<open>b.grad = 1\<close> to \<open>a.grad\<close> twice, once as
  \<open>self\<close> and once as \<open>other\<close>.
\<close>

theorem shared_operand_gradient:
  assumes "built h" and "iter_ok iter" and "a < length h" and "grad (h ! a) = 0"
    and "length h < limit"
  shows "\<exists>h1 b h2 r. add h a (Ref a) = Inr (h1, b) \<and> backward limit iter h1 b = (h2, r) \<and>
           r \<noteq> Inl RecursionError \<and> grad (h2 ! a) = 2"
proof -
  let ?n = "\<lparr>data = data (h ! a) + data (h ! a), grad = 0,
             backward_rule = Add_backward a a (length h), label = [], prev = {a}, op = Plus\<rparr>"
  let ?h1 = "h @ [?n]"
  let ?b = "length h"
  have ad: "add h a (Ref a) = Inr (?h1, ?b)"
    by (simp add: add_def coerce_def Value_init_def set_backward_snoc)
  have wf1: "wf_heap ?h1"
    using add_wf[OF ad built_wf[OF assms(1)] assms(3)] by (simp add: obj_ok_def assms(3))
  have b: "?b < length ?h1" by simp
  have nb: "?h1 ! ?b = ?n" by simp
  have na: "?h1 ! a = h ! a" using assms(3) by (simp add: nth_append)
  have ops: "\<forall>c\<in>prev (?h1 ! ?b). c \<le> a" unfolding nb by simp
  let ?h0 = "set_grad ?h1 ?b 1"
  have g0: "grad (?h0 ! ?b) = 1" using b by (simp add: set_grad_grad del: length_append)
  have rule: "backward_rule (?h1 ! ?b) = Add_backward a a ?b" unfolding nb by simp
  have cb: "call_backward ?h0 (backward_rule (?h1 ! ?b))
      = Inr (add_grad (add_grad ?h0 a (1 * grad (?h0 ! ?b))) a
               (1 * grad (add_grad ?h0 a (1 * grad (?h0 ! ?b)) ! ?b)))"
    unfolding rule by (simp add: call_backward_def Let_def)
  from backward_first_closure[OF wf1 assms(2) b assms(5) ops assms(3) cb]
  obtain h2 r where bw: "backward limit iter ?h1 ?b = (h2, r)" and nr: "r \<noteq> Inl RecursionError"
    and g: "grad (h2 ! a) = grad (?h1 ! a) + contribution ?h0 (backward_rule (?h1 ! ?b)) a"
    by blast
  have "contribution ?h0 (backward_rule (?h1 ! ?b)) a = 2"
    unfolding rule using g0 by (simp add: contribution_def)
  with g na assms(4) have "grad (h2 ! a) = 2" by simp
  with ad bw nr show ?thesis by blast
qed

theorem shared_operand_gradient_witness:
  "built (fst (leaf [] 5)) \<and> iter_ok sorted_iter \<and> 0 < length (fst (leaf [] 5)) \<and>
   grad (fst (leaf [] 5) ! 0) = 0 \<and> length (fst (leaf [] 5)) < 10 \<and>
   (\<exists>h1 b h2 r. add (fst (leaf [] 5)) 0 (Ref 0) = Inr (h1, b) \<and>
      backward 10 sorted_iter h1 b = (h2, r) \<and> r \<noteq> Inl RecursionError \<and> grad (h2 ! 0) = 2)"
proof -
  have b: "built (fst (leaf [] 5))" by (rule built_leaf[OF built_empty])
  have l: "0 < length (fst (leaf [] 5))" and g: "grad (fst (leaf [] 5) ! 0) = 0"
    and lim: "length (fst (leaf [] 5)) < 10"
    by (simp_all add: leaf_eq)
  from shared_operand_gradient[OF b iter_ok_sorted_iter l g lim]
  show ?thesis using b iter_ok_sorted_iter l g lim by simp
qed

text \<open>
  C5. \<open>a.relu()\<close> holds \<open>max(0, a.data)\<close>, and \<open>backward\<close> on it adds to \<open>a.grad\<close> one times
  \<open>out.grad\<close>, which is 1, when \<open>a.data > 0\<close> and nothing when \<open>a.data \<le> 0\<close>. For a value
  of exactly 0 and a gradient of 0 the gradient stays 0.
\<close>

theorem relu_gradient:
  assumes "built h" and "iter_ok iter" and "a < length h" and "length h < limit"
  shows "\<exists>h1 out h2 r. relu h a = (h1, out) \<and> data (h1 ! out) = max 0 (data (h ! a)) \<and>
           backward limit iter h1 out = (h2, r) \<and> r \<noteq> Inl RecursionError \<and>
           grad (h2 ! a) = grad (h ! a) + (if data (h ! a) > 0 then 1 else 0) \<and>
           (data (h ! a) = 0 \<and> grad (h ! a) = 0 \<longrightarrow> grad (h2 ! a) = 0)"
proof -
  let ?n = "\<lparr>data = max 0 (data (h ! a)), grad = 0,
             backward_rule = Relu_backward a (length h), label = [], prev = {a}, op = ReLU\<rparr>"
  let ?h1 = "h @ [?n]"
  let ?b = "length h"
  have re: "relu h a = (?h1, ?b)" by (rule relu_shape)
  have wf1: "wf_heap ?h1"
    using relu_wf[OF re built_wf[OF assms(1)] assms(3)] by simp
  have b: "?b < length ?h1" by simp
  have nb: "?h1 ! ?b = ?n" by simp
  have na: "?h1 ! a = h ! a" using assms(3) by (simp add: nth_append)
  have ops: "\<forall>c\<in>prev (?h1 ! ?b). c \<le> a" unfolding nb by simp
  let ?h0 = "set_grad ?h1 ?b 1"
  have g0: "grad (?h0 ! ?b) = 1" using b by (simp add: set_grad_grad del: length_append)
  have d0: "data (?h0 ! a) = data (h ! a)" using na by (simp add: set_grad_same)
  have rule: "backward_rule (?h1 ! ?b) = Relu_backward a ?b" unfolding nb by simp
  have cb: "call_backward ?h0 (backward_rule (?h1 ! ?b))
      = Inr (add_grad ?h0 a ((if data (?h0 ! a) > 0 then 1 else 0) * grad (?h0 ! ?b)))"
    unfolding rule by (simp add: call_backward_def)
  from backward_first_closure[OF wf1 assms(2) b assms(4) ops assms(3) cb]
  obtain h2 r where bw: "backward limit iter ?h1 ?b = (h2, r)" and nr: "r \<noteq> Inl RecursionError"
    and g: "grad (h2 ! a) = grad (?h1 ! a) + contribution ?h0 (backward_rule (?h1 ! ?b)) a"
    by blast
  have "contribution ?h0 (backward_rule (?h1 ! ?b)) a = (if data (h ! a) > 0 then 1 else 0)"
    unfolding rule using g0 d0 by (simp add: contribution_def)
  with g na have g2: "grad (h2 ! a) = grad (h ! a) + (if data (h ! a) > 0 then 1 else 0)"
    by simp
  then have "data (h ! a) = 0 \<and> grad (h ! a) = 0 \<longrightarrow> grad (h2 ! a) = 0" by simp
  moreover have "data (?h1 ! ?b) = max 0 (data (h ! a))" unfolding nb by simp
  ultimately show ?thesis using re bw nr g2 by blast
qed

theorem relu_gradient_witness:
  "built (fst (leaf [] 0)) \<and> iter_ok sorted_iter \<and> 0 < length (fst (leaf [] 0)) \<and>
   length (fst (leaf [] 0)) < 10 \<and>
   (\<exists>h1 out h2 r. relu (fst (leaf [] 0)) 0 = (h1, out) \<and>
      data (h1 ! out) = max 0 (data (fst (leaf [] 0) ! 0)) \<and>
      backward 10 sorted_iter h1 out = (h2, r) \<and> r \<noteq> Inl RecursionError \<and>
      grad (h2 ! 0) = grad (fst (leaf [] 0) ! 0)
         + (if data (fst (leaf [] 0) ! 0) > 0 then 1 else 0) \<and>
      (data (fst (leaf [] 0) ! 0) = 0 \<and> grad (fst (leaf [] 0) ! 0) = 0 \<longrightarrow> grad (h2 ! 0) = 0))
   \<and> data (fst (leaf [] 0) ! 0) = 0 \<and> grad (fst (leaf [] 0) ! 0) = 0"
proof -
  have b: "built (fst (leaf [] 0))" by (rule built_leaf[OF built_empty])
  have l: "0 < length (fst (leaf [] 0))" and lim: "length (fst (leaf [] 0)) < 10"
    and v: "data (fst (leaf [] 0) ! 0) = 0 \<and> grad (fst (leaf [] 0) ! 0) = 0"
    by (simp_all add: leaf_eq)
  from relu_gradient[OF b iter_ok_sorted_iter l lim]
  show ?thesis using b iter_ok_sorted_iter l lim v by simp
qed

lemma build_topo_mono:
  "build_topo k iter h v s = Some s' \<Longrightarrow> build_topo (k + n) iter h v s = Some s'"
  and build_children_mono:
  "build_children k iter h cs s = Some s' \<Longrightarrow> build_children (k + n) iter h cs s = Some s'"
proof (induction k iter h v s and k iter h cs s arbitrary: s' and s'
        rule: build_topo_build_children.induct)
  case (1 iter h v s)
  then show ?case by simp
next
  case (2 k iter h v s)
  show ?case
  proof (cases "v \<in> fst s")
    case True
    with "2.prems" show ?thesis by simp
  next
    case False
    with "2.prems" obtain s2 where
      ch: "build_children k iter h (iter v (prev (h ! v))) (insert v (fst s), snd s) = Some s2"
      and s': "s' = (fst s2, snd s2 @ [v])"
      by (auto split: option.splits)
    from "2.IH"[OF False ch] False s' show ?thesis by simp
  qed
next
  case (3 k iter h s)
  then show ?case by simp
next
  case (4 k iter h c cs s)
  from "4.prems" obtain s1 where
    c: "build_topo k iter h c s = Some s1" and r: "build_children k iter h cs s1 = Some s'"
    by (auto split: option.splits)
  from "4.IH"(1)[OF c] "4.IH"(2)[OF c r] show ?case by simp
qed

lemma iter_ok_empty:
  assumes "iter_ok iter"
  shows "iter v {} = []"
proof -
  from assms have "set (iter v {}) = {}" unfolding iter_ok_def by blast
  then show ?thesis by simp
qed

lemma iter_ok_single:
  assumes "iter_ok iter"
  shows "iter v {a} = [a]"
proof -
  from assms have s: "set (iter v {a}) = {a}" and d: "distinct (iter v {a})"
    unfolding iter_ok_def by (metis finite.emptyI finite.insertI)+
  from d have "length (iter v {a}) = card (set (iter v {a}))" by (simp add: distinct_card)
  with s have "length (iter v {a}) = 1" by simp
  then obtain x where x: "iter v {a} = [x]" by (cases "iter v {a}") auto
  with s show ?thesis by simp
qed

lemma iter_ok_pair:
  assumes "iter_ok iter" and "a \<noteq> b"
  shows "iter v {a, b} = [a, b] \<or> iter v {a, b} = [b, a]"
proof -
  from assms(1) have s: "set (iter v {a, b}) = {a, b}" and d: "distinct (iter v {a, b})"
    unfolding iter_ok_def by (metis finite.emptyI finite.insertI)+
  from d have "length (iter v {a, b}) = card (set (iter v {a, b}))" by (simp add: distinct_card)
  with s assms(2) have "length (iter v {a, b}) = 2" by simp
  then obtain x y where xy: "iter v {a, b} = [x, y]"
    by (cases "iter v {a, b}") (auto simp: length_Suc_conv)
  from s xy have "{x, y} = {a, b}" by simp
  then have "(x = a \<and> y = b) \<or> (x = b \<and> y = a)" by (auto simp: doubleton_eq_iff)
  with xy show ?thesis by auto
qed

lemma backward_mono:
  assumes "build_topo k iter h v ({}, []) = Some s"
  shows "backward (k + n) iter h v = backward k iter h v"
  using build_topo_mono[OF assms, of n] assms by (simp add: backward_def)

lemma scenario_backward_any:
  assumes "iter_ok iter"
  shows "\<exists>h' topo. backward 5 iter scenario_heap 4 = (h', Inr topo) \<and>
           build_topo 5 iter scenario_heap 4 ({}, []) \<noteq> None \<and>
           grad (h' ! 0) = 3 \<and> grad (h' ! 1) = - 2 \<and> data (h' ! 4) = - 6"
proof -
  have e0: "iter 0 {} = []" and e1: "iter 1 {} = []" and e3: "iter 3 {0} = [0]"
    using assms by (simp_all add: iter_ok_empty iter_ok_single)
  have p4: "iter 4 {2, 3} = [2, 3] \<or> iter 4 {2, 3} = [3, 2]"
    by (rule iter_ok_pair[OF assms]) simp
  have p2: "iter 2 {0, 1} = [0, 1] \<or> iter 2 {0, 1} = [1, 0]"
    by (rule iter_ok_pair[OF assms]) simp
  from p4 p2 consider
      (a) "iter 4 {2, 3} = [2, 3]" "iter 2 {0, 1} = [0, 1]"
    | (b) "iter 4 {2, 3} = [2, 3]" "iter 2 {0, 1} = [1, 0]"
    | (c) "iter 4 {2, 3} = [3, 2]" "iter 2 {0, 1} = [0, 1]"
    | (d) "iter 4 {2, 3} = [3, 2]" "iter 2 {0, 1} = [1, 0]"
    by blast
  then show ?thesis
  proof cases
    case a
    with e0 e1 e3 show ?thesis unfolding scenario_heap_eq backward_def
      by (simp add: eval_nat_numeral set_grad_def call_backward_def add_grad_def)
  next
    case b
    with e0 e1 e3 show ?thesis unfolding scenario_heap_eq backward_def
      by (simp add: eval_nat_numeral set_grad_def call_backward_def add_grad_def)
  next
    case c
    with e0 e1 e3 show ?thesis unfolding scenario_heap_eq backward_def
      by (simp add: eval_nat_numeral set_grad_def call_backward_def add_grad_def)
  next
    case d
    with e0 e1 e3 show ?thesis unfolding scenario_heap_eq backward_def
      by (simp add: eval_nat_numeral set_grad_def call_backward_def add_grad_def)
  qed
qed

text \<open>
  C3. For \<open>x = Value(-2.0)\<close>, \<open>y = Value(3.0)\<close> and \<open>z = x*y + x.relu()\<close>, with every set
  iteration order and a recursion limit above 4: \<open>z.data = -6\<close>, and after
  \<open>z.backward()\<close>, which returns, \<open>x.grad = 3\<close> and \<open>y.grad = -2\<close>.
\<close>

theorem scenario_gradients:
  assumes "iter_ok iter" and "4 < limit"
  shows "\<exists>h x y z h' topo. scenario = Inr (h, x, y, z) \<and> data (h ! z) = - 6 \<and>
           backward limit iter h z = (h', Inr topo) \<and> data (h' ! z) = - 6 \<and>
           grad (h' ! x) = 3 \<and> grad (h' ! y) = - 2"
proof -
  from assms(2) obtain n where n: "limit = 5 + n"
    by (metis Suc_leI add.commute eval_nat_numeral(3) le_Suc_ex numeral_Bit0 numeral_Bit1
        numeral_One one_add_one)
  from scenario_backward_any[OF assms(1)] obtain h' topo s where
    bw: "backward 5 iter scenario_heap 4 = (h', Inr topo)"
    and bt: "build_topo 5 iter scenario_heap 4 ({}, []) = Some s"
    and g: "grad (h' ! 0) = 3" "grad (h' ! 1) = - 2" "data (h' ! 4) = - 6"
    by blast
  from backward_mono[OF bt, of n] bw n
  have "backward limit iter scenario_heap 4 = (h', Inr topo)" by simp
  moreover have "scenario = Inr (scenario_heap, 0, 1, 4)"
    unfolding scenario_heap_eq by (rule scenario_eq)
  moreover have "data (scenario_heap ! 4) = - 6" by (simp add: scenario_heap_eq)
  ultimately show ?thesis using g by blast
qed

theorem scenario_gradients_witness:
  "iter_ok sorted_iter \<and> (4::nat) < 10 \<and>
   (\<exists>h x y z h' topo. scenario = Inr (h, x, y, z) \<and> data (h ! z) = - 6 \<and>
      backward 10 sorted_iter h z = (h', Inr topo) \<and> data (h' ! z) = - 6 \<and>
      grad (h' ! x) = 3 \<and> grad (h' ! y) = - 2)"
proof -
  have lim: "(4::nat) < 10" by simp
  from scenario_gradients[OF iter_ok_sorted_iter lim] show ?thesis
    using iter_ok_sorted_iter by simp
qed

lemma coerce_prefix:
  assumes "coerce msg h other = Inr (h1, b)"
  shows "length h \<le> length h1 \<and> (\<forall>i<length h. h1 ! i = h ! i)"
  using coerce_cases[OF assms] by (auto simp: nth_append)

lemma add_prefix:
  assumes "add h self other = Inr (h', out)"
  shows "\<forall>i<length h. h' ! i = h ! i"
proof -
  from add_shape[OF assms] obtain h1 b n where
    co: "coerce add_msg h other = Inr (h1, b)" and h': "h' = h1 @ [n]" by blast
  from coerce_prefix[OF co] show ?thesis by (simp add: h' nth_append)
qed

lemma mul_prefix:
  assumes "mul h self other = Inr (h', out)"
  shows "\<forall>i<length h. h' ! i = h ! i"
proof -
  from mul_shape[OF assms] obtain h1 b n where
    co: "coerce mul_msg h other = Inr (h1, b)" and h': "h' = h1 @ [n]" by blast
  from coerce_prefix[OF co] show ?thesis by (simp add: h' nth_append)
qed

lemma pow_prefix:
  assumes "pow h self pwr = Inr (h', out)"
  shows "\<forall>i<length h. h' ! i = h ! i"
proof -
  from pow_shape[OF assms] obtain n where h': "h' = h @ [n]" by blast
  then show ?thesis by (simp add: nth_append)
qed

lemma add_operands:
  assumes "add h self other = Inr (h', out)"
  shows "\<exists>b. prev (h' ! out) = {self, b} \<and>
           (other = Ref b \<or> (\<exists>n. other = Num n \<and> b = length h))"
proof -
  from add_shape[OF assms] obtain h1 b where
    co: "coerce add_msg h other = Inr (h1, b)" and out: "out = length h1"
    and h': "h' = h1 @ [\<lparr>data = data (h1 ! self) + data (h1 ! b), grad = 0,
                        backward_rule = Add_backward self b out, label = [],
                        prev = {self, b}, op = Plus\<rparr>]" by blast
  have "prev (h' ! out) = {self, b}" by (simp add: h' out)
  with coerce_cases[OF co] show ?thesis by blast
qed

lemma mul_operands:
  assumes "mul h self other = Inr (h', out)"
  shows "\<exists>b. prev (h' ! out) = {self, b} \<and>
           (other = Ref b \<or> (\<exists>n. other = Num n \<and> b = length h))"
proof -
  from mul_shape[OF assms] obtain h1 b where
    co: "coerce mul_msg h other = Inr (h1, b)" and out: "out = length h1"
    and h': "h' = h1 @ [\<lparr>data = data (h1 ! self) * data (h1 ! b), grad = 0,
                        backward_rule = Mul_backward self b out, label = [],
                        prev = {self, b}, op = Times\<rparr>]" by blast
  have "prev (h' ! out) = {self, b}" by (simp add: h' out)
  with coerce_cases[OF co] show ?thesis by blast
qed

lemma pow_operands:
  assumes "pow h self pwr = Inr (h', out)"
  shows "prev (h' ! out) = {self}"
proof -
  from pow_shape[OF assms] obtain p d where out: "out = length h"
    and h': "h' = h @ [\<lparr>data = d, grad = 0, backward_rule = Pow_backward self p out,
                        label = [], prev = {self}, op = Pow_op p\<rparr>]" by blast
  show ?thesis by (simp add: h' out)
qed

lemma card_pair_le: "card {x, y :: addr} \<le> 2"
  by (simp add: card_insert_if)

text \<open>
  C8, as the code has it. The field \<open>_prev\<close> is a set of addresses: empty for a leaf,
  \<open>{self}\<close> for a power and for ReLU, \<open>{self, other}\<close> for a sum and a product, which is
  the single \<open>{self}\<close> when both operands are the same object, and keeps no order. It has
  at most two elements. No operation changes the field of an object that exists: the
  operations that create objects leave the existing ones as they are, and \<open>backward\<close>
  changes gradients only.
\<close>

theorem operands_field:
  "(leaf h d = (h1, x) \<longrightarrow> prev (h1 ! x) = {} \<and> (\<forall>i<length h. h1 ! i = h ! i)) \<and>
   (pow h self pwr = Inr (h2, o2) \<longrightarrow>
      prev (h2 ! o2) = {self} \<and> (\<forall>i<length h. h2 ! i = h ! i)) \<and>
   (relu h self = (h3, o3) \<longrightarrow>
      prev (h3 ! o3) = {self} \<and> (\<forall>i<length h. h3 ! i = h ! i)) \<and>
   (add h self other = Inr (h4, o4) \<longrightarrow>
      (\<exists>b. prev (h4 ! o4) = {self, b} \<and> (other = Ref b \<or> (\<exists>n. other = Num n \<and> b = length h)))
      \<and> card (prev (h4 ! o4)) \<le> 2 \<and> (\<forall>i<length h. h4 ! i = h ! i)) \<and>
   (mul h self other = Inr (h5, o5) \<longrightarrow>
      (\<exists>b. prev (h5 ! o5) = {self, b} \<and> (other = Ref b \<or> (\<exists>n. other = Num n \<and> b = length h)))
      \<and> card (prev (h5 ! o5)) \<le> 2 \<and> (\<forall>i<length h. h5 ! i = h ! i)) \<and>
   (backward limit iter h self = (h6, r) \<longrightarrow>
      length h6 = length h \<and> (\<forall>i. prev (h6 ! i) = prev (h ! i)))"
proof (intro conjI impI)
  assume "leaf h d = (h1, x)"
  then have e: "h1 = h @ [\<lparr>data = d, grad = 0, backward_rule = Lambda_None, label = [],
      prev = {}, op = No_op\<rparr>]" "x = length h"
    by (auto simp: leaf_eq)
  show "prev (h1 ! x) = {}" by (simp add: e)
  show "\<forall>i<length h. h1 ! i = h ! i" by (simp add: e nth_append)
next
  assume a: "pow h self pwr = Inr (h2, o2)"
  show "prev (h2 ! o2) = {self}" by (rule pow_operands[OF a])
  show "\<forall>i<length h. h2 ! i = h ! i" by (rule pow_prefix[OF a])
next
  assume "relu h self = (h3, o3)"
  then have e: "h3 = h @ [\<lparr>data = max 0 (data (h ! self)), grad = 0,
      backward_rule = Relu_backward self (length h), label = [], prev = {self}, op = ReLU\<rparr>]"
      "o3 = length h"
    by (auto simp: relu_shape)
  show "prev (h3 ! o3) = {self}" by (simp add: e)
  show "\<forall>i<length h. h3 ! i = h ! i" by (simp add: e nth_append)
next
  assume a: "add h self other = Inr (h4, o4)"
  from add_operands[OF a]
  show "\<exists>b. prev (h4 ! o4) = {self, b} \<and> (other = Ref b \<or> (\<exists>n. other = Num n \<and> b = length h))" .
  then obtain b where "prev (h4 ! o4) = {self, b}" by blast
  then show "card (prev (h4 ! o4)) \<le> 2" by (simp add: card_pair_le)
  show "\<forall>i<length h. h4 ! i = h ! i" by (rule add_prefix[OF a])
next
  assume a: "mul h self other = Inr (h5, o5)"
  from mul_operands[OF a]
  show "\<exists>b. prev (h5 ! o5) = {self, b} \<and> (other = Ref b \<or> (\<exists>n. other = Num n \<and> b = length h))" .
  then obtain b where "prev (h5 ! o5) = {self, b}" by blast
  then show "card (prev (h5 ! o5)) \<le> 2" by (simp add: card_pair_le)
  show "\<forall>i<length h. h5 ! i = h ! i" by (rule mul_prefix[OF a])
next
  assume a: "backward limit iter h self = (h6, r)"
  show "length h6 = length h" using backward_same[OF a] by simp
  show "\<forall>i. prev (h6 ! i) = prev (h ! i)" using backward_same[OF a] by simp
qed

theorem operands_field_witness:
  "(\<exists>h1 x. leaf (fst (leaf [] 5)) 7 = (h1, x) \<and> prev (h1 ! x) = {} \<and>
        (\<forall>i<length (fst (leaf [] 5)). h1 ! i = fst (leaf [] 5) ! i)) \<and>
   (\<exists>h2 o2. pow (fst (leaf [] 5)) 0 (Num (PyInt 2)) = Inr (h2, o2) \<and> prev (h2 ! o2) = {0} \<and>
        (\<forall>i<length (fst (leaf [] 5)). h2 ! i = fst (leaf [] 5) ! i)) \<and>
   (\<exists>h3 o3. relu (fst (leaf [] 5)) 0 = (h3, o3) \<and> prev (h3 ! o3) = {0} \<and>
        (\<forall>i<length (fst (leaf [] 5)). h3 ! i = fst (leaf [] 5) ! i)) \<and>
   (\<exists>h4 o4. add (fst (leaf [] 5)) 0 (Ref 0) = Inr (h4, o4) \<and> prev (h4 ! o4) = {0} \<and>
        card (prev (h4 ! o4)) \<le> 2 \<and>
        (\<forall>i<length (fst (leaf [] 5)). h4 ! i = fst (leaf [] 5) ! i)) \<and>
   (\<exists>h5 o5. mul (fst (leaf [] 5)) 0 (Ref 0) = Inr (h5, o5) \<and> prev (h5 ! o5) = {0} \<and>
        card (prev (h5 ! o5)) \<le> 2 \<and>
        (\<forall>i<length (fst (leaf [] 5)). h5 ! i = fst (leaf [] 5) ! i)) \<and>
   (\<exists>h6 r. backward 10 sorted_iter (fst (leaf [] 5)) 0 = (h6, r) \<and>
        length h6 = length (fst (leaf [] 5)) \<and>
        (\<forall>i. prev (h6 ! i) = prev (fst (leaf [] 5) ! i)))"
proof -
  let ?H = "fst (leaf [] 5)"
  obtain h1 x where e1: "leaf ?H 7 = (h1, x)" by (cases "leaf ?H 7")
  obtain h2 o2 where e2: "pow ?H 0 (Num (PyInt 2)) = Inr (h2, o2)"
    by (simp add: pow_def py_pow_def leaf_eq Value_init_def)
  obtain h3 o3 where e3: "relu ?H 0 = (h3, o3)" by (cases "relu ?H 0")
  obtain h4 o4 where e4: "add ?H 0 (Ref 0) = Inr (h4, o4)"
    by (simp add: add_def coerce_def Value_init_def)
  obtain h5 o5 where e5: "mul ?H 0 (Ref 0) = Inr (h5, o5)"
    by (simp add: mul_def coerce_def Value_init_def)
  obtain h6 r where e6: "backward 10 sorted_iter ?H 0 = (h6, r)"
    by (cases "backward 10 sorted_iter ?H 0")
  note t = operands_field[where h = "?H" and d = 7 and ?h1.0 = h1 and x = x and self = 0
      and pwr = "Num (PyInt 2)" and ?h2.0 = h2 and ?o2.0 = o2 and ?h3.0 = h3 and ?o3.0 = o3
      and other = "Ref 0" and ?h4.0 = h4 and ?o4.0 = o4 and ?h5.0 = h5 and ?o5.0 = o5
      and limit = 10 and iter = sorted_iter and ?h6.0 = h6 and r = r]
  note t1 = t[THEN conjunct1, rule_format, OF e1]
  note t2 = t[THEN conjunct2, THEN conjunct1, rule_format, OF e2]
  note t3 = t[THEN conjunct2, THEN conjunct2, THEN conjunct1, rule_format, OF e3]
  note t4 = t[THEN conjunct2, THEN conjunct2, THEN conjunct2, THEN conjunct1, rule_format, OF e4]
  note t5 = t[THEN conjunct2, THEN conjunct2, THEN conjunct2, THEN conjunct2, THEN conjunct1,
      rule_format, OF e5]
  note t6 = t[THEN conjunct2, THEN conjunct2, THEN conjunct2, THEN conjunct2, THEN conjunct2,
      rule_format, OF e6]
  have w1: "leaf ?H 7 = (h1, x) \<and> prev (h1 ! x) = {} \<and> (\<forall>i<length ?H. h1 ! i = ?H ! i)"
    using e1 t1 by simp
  have w2: "pow ?H 0 (Num (PyInt 2)) = Inr (h2, o2) \<and> prev (h2 ! o2) = {0} \<and>
      (\<forall>i<length ?H. h2 ! i = ?H ! i)"
    using e2 t2 by simp
  have w3: "relu ?H 0 = (h3, o3) \<and> prev (h3 ! o3) = {0} \<and> (\<forall>i<length ?H. h3 ! i = ?H ! i)"
    using e3 t3 by simp
  from t4 have p4: "prev (h4 ! o4) = {0}" by auto
  have w4: "add ?H 0 (Ref 0) = Inr (h4, o4) \<and> prev (h4 ! o4) = {0} \<and>
      card (prev (h4 ! o4)) \<le> 2 \<and> (\<forall>i<length ?H. h4 ! i = ?H ! i)"
    using e4 t4 p4 by simp
  from t5 have p5: "prev (h5 ! o5) = {0}" by auto
  have w5: "mul ?H 0 (Ref 0) = Inr (h5, o5) \<and> prev (h5 ! o5) = {0} \<and>
      card (prev (h5 ! o5)) \<le> 2 \<and> (\<forall>i<length ?H. h5 ! i = ?H ! i)"
    using e5 t5 p5 by simp
  have w6: "backward 10 sorted_iter ?H 0 = (h6, r) \<and> length h6 = length ?H \<and>
      (\<forall>i. prev (h6 ! i) = prev (?H ! i))"
    using e6 t6 by simp
  from w1 have x1: "\<exists>h1 x. leaf ?H 7 = (h1, x) \<and> prev (h1 ! x) = {} \<and>
      (\<forall>i<length ?H. h1 ! i = ?H ! i)" by blast
  from w2 have x2: "\<exists>h2 o2. pow ?H 0 (Num (PyInt 2)) = Inr (h2, o2) \<and> prev (h2 ! o2) = {0} \<and>
      (\<forall>i<length ?H. h2 ! i = ?H ! i)" by blast
  from w3 have x3: "\<exists>h3 o3. relu ?H 0 = (h3, o3) \<and> prev (h3 ! o3) = {0} \<and>
      (\<forall>i<length ?H. h3 ! i = ?H ! i)" by blast
  from w4 have x4: "\<exists>h4 o4. add ?H 0 (Ref 0) = Inr (h4, o4) \<and> prev (h4 ! o4) = {0} \<and>
      card (prev (h4 ! o4)) \<le> 2 \<and> (\<forall>i<length ?H. h4 ! i = ?H ! i)" by blast
  from w5 have x5: "\<exists>h5 o5. mul ?H 0 (Ref 0) = Inr (h5, o5) \<and> prev (h5 ! o5) = {0} \<and>
      card (prev (h5 ! o5)) \<le> 2 \<and> (\<forall>i<length ?H. h5 ! i = ?H ! i)" by blast
  from w6 have x6: "\<exists>h6 r. backward 10 sorted_iter ?H 0 = (h6, r) \<and> length h6 = length ?H \<and>
      (\<forall>i. prev (h6 ! i) = prev (?H ! i))" by blast
  show ?thesis
    by (rule conjI[OF x1 conjI[OF x2 conjI[OF x3 conjI[OF x4 conjI[OF x5 x6]]]]])
qed

text \<open>
  C8 as stated fails for \<open>a + a\<close>: the two inputs are the sequence \<open>[a, a]\<close>, of length 2,
  and the field of the sum holds the one element \<open>a\<close>.
\<close>

theorem operands_sequence_counterexample:
  "(case add (fst (leaf [] 5)) 0 (Ref 0) of
      Inl e \<Rightarrow> False
    | Inr (h, b) \<Rightarrow> prev (h ! b) = {0} \<and> card (prev (h ! b)) = 1
        \<and> card (prev (h ! b)) \<noteq> length [0 :: addr, 0])"
  by (simp add: add_def coerce_def leaf_eq Value_init_def set_backward_def)

lemma add_error_iff: "(\<exists>e. add h self other = Inl e) \<longleftrightarrow> (\<exists>t. other = Other t)"
  by (cases other) (auto simp: add_def coerce_def Value_init_def split: sum.splits)

lemma mul_error_iff: "(\<exists>e. mul h self other = Inl e) \<longleftrightarrow> (\<exists>t. other = Other t)"
  by (cases other) (auto simp: mul_def coerce_def Value_init_def split: sum.splits)

lemma pow_num_not_exception: "pow h self (Num n) \<noteq> Inl (Exception m)"
proof (cases "py_pow (data (h ! self)) n")
  case (Inl e)
  from py_pow_error[OF Inl] Inl show ?thesis by (auto simp: pow_def)
next
  case (Inr d)
  then show ?thesis by (simp add: pow_def Value_init_def)
qed

lemma pow_exception_iff:
  "(\<exists>m. pow h self pwr = Inl (Exception m)) \<longleftrightarrow> (\<forall>n. pwr \<noteq> Num n)"
proof (cases pwr)
  case (Num n)
  with pow_num_not_exception[of h self n] show ?thesis by simp
next
  case (Ref b)
  then show ?thesis by (simp add: pow_def)
next
  case (Other t)
  then show ?thesis by (simp add: pow_def)
qed

lemma py_pow_zero_division:
  "py_pow x n = Inl ZeroDivisionError \<longleftrightarrow> x = 0 \<and> num_val n < 0"
  by (cases n) (auto simp: py_pow_def num_val_def)

lemma pow_zero_division:
  "pow h self (Num n) = Inl ZeroDivisionError \<longleftrightarrow> data (h ! self) = 0 \<and> num_val n < 0"
proof (cases "py_pow (data (h ! self)) n")
  case (Inl e)
  then have "pow h self (Num n) = Inl e" by (simp add: pow_def)
  with Inl py_pow_zero_division[of "data (h ! self)" n] show ?thesis by auto
next
  case (Inr d)
  then have "pow h self (Num n) \<noteq> Inl ZeroDivisionError" by (simp add: pow_def Value_init_def)
  with Inr py_pow_zero_division[of "data (h ! self)" n] show ?thesis by auto
qed

lemma pow_num_error:
  assumes "pow h self (Num n) = Inl e"
  shows "e = ZeroDivisionError \<or> e = ComplexResult"
proof (cases "py_pow (data (h ! self)) n")
  case (Inl e')
  with assms have "e = e'" by (simp add: pow_def)
  with py_pow_error[OF Inl] show ?thesis by simp
next
  case (Inr d)
  with assms show ?thesis by (simp add: pow_def Value_init_def)
qed

text \<open>
  C9, as the code has it. \<open>__add__\<close> and \<open>__mul__\<close> raise exactly when the other operand
  is neither a \<open>Value\<close> nor an int or float, and the message names the operation and the
  operand's type. \<open>__pow__\<close> raises its own exception exactly when the exponent is not an
  int or float; with a numeric exponent Python's power itself raises ZeroDivisionError
  exactly when the value is 0 and the exponent negative, and nothing else is raised
  (a negative value with a fractional exponent gives a complex number, which is outside
  this model). An operation that raises returns no store: it has written nothing.
\<close>

theorem operand_errors:
  "((\<exists>e. add h self other = Inl e) \<longleftrightarrow> (\<exists>t. other = Other t)) \<and>
   add h self (Other t) = Inl (Exception (add_msg @ t)) \<and>
   ((\<exists>e. mul h self other = Inl e) \<longleftrightarrow> (\<exists>t. other = Other t)) \<and>
   mul h self (Other t) = Inl (Exception (mul_msg @ t)) \<and>
   ((\<exists>m. pow h self pwr = Inl (Exception m)) \<longleftrightarrow> (\<forall>n. pwr \<noteq> Num n)) \<and>
   pow h self (Other t) = Inl (Exception (pow_msg @ t)) \<and>
   pow h self (Ref b) = Inl (Exception (pow_msg @ type_of_Value)) \<and>
   (pow h self (Num n) = Inl ZeroDivisionError \<longleftrightarrow> data (h ! self) = 0 \<and> num_val n < 0) \<and>
   (\<forall>e. pow h self (Num n) = Inl e \<longrightarrow> e = ZeroDivisionError \<or> e = ComplexResult)"
proof (intro conjI)
  show "(\<exists>e. add h self other = Inl e) \<longleftrightarrow> (\<exists>t. other = Other t)" by (rule add_error_iff)
  show "add h self (Other t) = Inl (Exception (add_msg @ t))" by (simp add: add_def coerce_def)
  show "(\<exists>e. mul h self other = Inl e) \<longleftrightarrow> (\<exists>t. other = Other t)" by (rule mul_error_iff)
  show "mul h self (Other t) = Inl (Exception (mul_msg @ t))" by (simp add: mul_def coerce_def)
  show "(\<exists>m. pow h self pwr = Inl (Exception m)) \<longleftrightarrow> (\<forall>n. pwr \<noteq> Num n)"
    by (rule pow_exception_iff)
  show "pow h self (Other t) = Inl (Exception (pow_msg @ t))" by (simp add: pow_def)
  show "pow h self (Ref b) = Inl (Exception (pow_msg @ type_of_Value))" by (simp add: pow_def)
  show "pow h self (Num n) = Inl ZeroDivisionError \<longleftrightarrow> data (h ! self) = 0 \<and> num_val n < 0"
    by (rule pow_zero_division)
  show "\<forall>e. pow h self (Num n) = Inl e \<longrightarrow> e = ZeroDivisionError \<or> e = ComplexResult"
    using pow_num_error by blast
qed

theorem operand_errors_witness:
  "pow (fst (leaf [] 0)) 0 (Num (PyInt (- 1))) = Inl ZeroDivisionError \<and>
   (ZeroDivisionError = ZeroDivisionError \<or> ZeroDivisionError = ComplexResult) \<and>
   add (fst (leaf [] 0)) 0 (Other ''<class 'str'>'')
     = Inl (Exception (add_msg @ ''<class 'str'>'')) \<and>
   mul (fst (leaf [] 0)) 0 (Other ''<class 'str'>'')
     = Inl (Exception (mul_msg @ ''<class 'str'>'')) \<and>
   pow (fst (leaf [] 0)) 0 (Other ''<class 'str'>'')
     = Inl (Exception (pow_msg @ ''<class 'str'>''))"
proof -
  note t = operand_errors[of "fst (leaf [] 0)" 0 "Other ''<class 'str'>''" "''<class 'str'>''"
      "Other ''<class 'str'>''" 0 "PyInt (- 1)"]
  have z: "data (fst (leaf [] 0) ! 0) = 0 \<and> num_val (PyInt (- 1)) < 0"
    by (simp add: leaf_eq num_val_def)
  from t z have p: "pow (fst (leaf [] 0)) 0 (Num (PyInt (- 1))) = Inl ZeroDivisionError"
    by blast
  with t have "ZeroDivisionError = ZeroDivisionError \<or> ZeroDivisionError = ComplexResult"
    by blast
  with t p show ?thesis by blast
qed

text \<open>
  C9 as stated fails for the power: \<open>Value(0.0) ** -1\<close> raises, although the exponent is
  an int.
\<close>

theorem pow_error_counterexample:
  "pow (fst (leaf [] 0)) 0 (Num (PyInt (- 1))) = Inl ZeroDivisionError"
  by (simp add: pow_def py_pow_def leaf_eq)

subsection \<open>The reversed operators\<close>

lemma rsub_value:
  assumes "self < length h"
  shows "\<exists>h' out. rsub h self (Num c) = Inr (h', out) \<and>
           data (h' ! out) = data (h ! self) - num_val c"
proof -
  have n: "num_val (num_neg c) = - num_val c"
    by (cases c) (simp_all add: num_val_def num_neg_def)
  let ?l = "\<lparr>data = num_val (num_neg c), grad = 0, backward_rule = Lambda_None, label = [],
             prev = {}, op = No_op\<rparr>"
  let ?h1 = "h @ [?l]"
  let ?o = "\<lparr>data = data (?h1 ! self) + data (?h1 ! length h), grad = 0,
             backward_rule = Add_backward self (length h) (length ?h1), label = [],
             prev = {self, length h}, op = Plus\<rparr>"
  have e: "rsub h self (Num c) = Inr (?h1 @ [?o], length ?h1)"
    by (simp add: rsub_def py_neg_def add_def coerce_def Value_init_def set_backward_def)
  have "data ((?h1 @ [?o]) ! length ?h1) = data (?h1 ! self) + data (?h1 ! length h)"
    by (simp only: nth_append_length node.simps)
  also have "\<dots> = data (h ! self) - num_val c"
    using assms n by (simp add: nth_append)
  finally show ?thesis using e by blast
qed

lemma rtruediv_value:
  assumes "self < length h" and "data (h ! self) \<noteq> 0"
  shows "\<exists>h' out. rtruediv h self (Num c) = Inr (h', out) \<and>
           data (h' ! out) = num_val c / data (h ! self)"
proof -
  let ?x = "data (h ! self)"
  let ?p = "\<lparr>data = ?x powi (- 1), grad = 0,
             backward_rule = Pow_backward self (PyInt (- 1)) (length h), label = [],
             prev = {self}, op = Pow_op (PyInt (- 1))\<rparr>"
  let ?h1 = "h @ [?p]"
  have pw: "pow h self (Num (PyInt (- 1))) = Inr (?h1, length h)"
    using assms(2) by (simp add: pow_def py_pow_def Value_init_def set_backward_def)
  let ?l = "\<lparr>data = num_val c, grad = 0, backward_rule = Lambda_None, label = [],
             prev = {}, op = No_op\<rparr>"
  let ?h2 = "?h1 @ [?l]"
  let ?o = "\<lparr>data = data (?h2 ! length h) * data (?h2 ! length ?h1), grad = 0,
             backward_rule = Mul_backward (length h) (length ?h1) (length ?h2), label = [],
             prev = {length h, length ?h1}, op = Times\<rparr>"
  have m: "mul ?h1 (length h) (Num c) = Inr (?h2 @ [?o], length ?h2)"
    by (simp add: mul_def coerce_def Value_init_def set_backward_def)
  have e: "rtruediv h self (Num c) = Inr (?h2 @ [?o], length ?h2)"
    unfolding rtruediv_def pw using m by (simp add: py_mul_left_def rmul_def)
  have "data ((?h2 @ [?o]) ! length ?h2) = data (?h2 ! length h) * data (?h2 ! length ?h1)"
    by (simp only: nth_append_length node.simps)
  also have "\<dots> = ?x powi (- 1) * num_val c"
    by (simp add: nth_append)
  also have "\<dots> = num_val c / ?x"
    by (simp add: power_int_minus divide_inverse mult.commute)
  finally show ?thesis using e by blast
qed

text \<open>
  C7 at \<open>5 - Value(3.0)\<close>: Python calls \<open>__rsub__\<close> with \<open>other = 5\<close>, whose body is that
  of \<open>__sub__\<close>, so the result holds \<open>3 + (-5) = -2\<close> and not \<open>5 - 3 = 2\<close>.
\<close>

theorem rsub_swapped:
  "(case rsub (fst (leaf [] 3)) 0 (Num (PyInt 5)) of
      Inl e \<Rightarrow> False
    | Inr (h, out) \<Rightarrow> data (h ! out) = - 2 \<and> data (h ! out) \<noteq> 5 - 3)"
  by (simp add: rsub_def py_neg_def num_neg_def num_val_def add_def coerce_def leaf_eq
      Value_init_def set_backward_def)

end
